theory Spec2Isabelle
  imports Complex_Main "HOL-Library.Sublist" "HOL-Library.AList"
begin

section \<open>ComparisonEngine: \<open>src/scripts/parallel-claude-manager.js\<close>\<close>







text \<open>
  A finished pairwise comparison, as \<open>analyzeComparisons\<close> reads it: the two variation
  names and \<open>metrics.overallSimilarity\<close>.
\<close>

record comparison =
  variations :: "string \<times> string"
  overallSimilarity :: real

record cluster =
  cluster_name :: string
  cluster_count :: nat
  cluster_threshold :: string

record analysis =
  totalComparisons :: nat
  averageSimilarity :: real
  mostSimilarPair :: "comparison option"
  mostDifferentPair :: "comparison option"
  clusters :: "cluster list"

text \<open>
  \<open>analyzeComparisons\<close> (lines 529-567). \<open>Array.prototype.sort\<close> is stable; the comparator
  \<open>b - a\<close> sorts by descending similarity, which is an ascending stable sort on the negated
  key. \<open>sorted[0]\<close> and \<open>sorted[sorted.length - 1]\<close> are read only when the list is not
  empty.
\<close>

definition analyzeComparisons :: "comparison list \<Rightarrow> analysis" where
  "analyzeComparisons comparisons =
     (let analysis0 =
            \<lparr> totalComparisons = length comparisons, averageSimilarity = 0,
              mostSimilarPair = None, mostDifferentPair = None, clusters = [] \<rparr>
      in if length comparisons = 0 then analysis0
         else
           let avg = foldl (\<lambda>sum comp. sum + overallSimilarity comp) 0 comparisons
                       / real (length comparisons);
               sorted = sort_key (\<lambda>c. - overallSimilarity c) comparisons;
               highSimilarity = filter (\<lambda>c. overallSimilarity c > 0.8) comparisons;
               mediumSimilarity =
                 filter (\<lambda>c. overallSimilarity c > 0.6 \<and> overallSimilarity c \<le> 0.8) comparisons;
               lowSimilarity = filter (\<lambda>c. overallSimilarity c \<le> 0.6) comparisons
           in analysis0
                \<lparr> averageSimilarity := avg,
                  mostSimilarPair := Some (hd sorted),
                  mostDifferentPair := Some (last sorted),
                  clusters :=
                    [ \<lparr> cluster_name = ''High Similarity'', cluster_count = length highSimilarity,
                        cluster_threshold = ''>80%'' \<rparr>,
                      \<lparr> cluster_name = ''Medium Similarity'', cluster_count = length mediumSimilarity,
                        cluster_threshold = ''60-80%'' \<rparr>,
                      \<lparr> cluster_name = ''Low Similarity'', cluster_count = length lowSimilarity,
                        cluster_threshold = ''<60%'' \<rparr> ] \<rparr>)"


section \<open>Worker output parsing: \<open>src/scripts/parallel-claude-manager.js\<close>\<close>

text \<open>
  Exceptions are values. \<open>SyntaxError\<close> is what \<open>JSON.parse\<close> throws; \<open>Error msg\<close> is
  \<open>new Error(msg)\<close> and stands for every other exception, with its message.
\<close>

datatype js_error = SyntaxError | Error string

fun message :: "js_error \<Rightarrow> string" where
  "message SyntaxError = ''Unexpected token in JSON''"
| "message (Error msg) = msg"

subsection \<open>\<open>JSON.parse\<close>\<close>

text \<open>
  \<open>JSON.parse\<close> is a built-in of the language, not code of the repository. It is modelled by
  a recursive-descent parser for the JSON grammar of ECMA-404: white space is tab, line
  feed, carriage return and space; strings are double-quoted with the escapes
  \<open>\" \\ \/ \b \f \n \r \t \uXXXX\<close> and no raw control characters; numbers are
  \<open>-? (0 | [1-9][0-9]*) (. [0-9]+)? ([eE] [+-]? [0-9]+)?\<close>. The parsed value keeps
  the syntax tree: numbers and strings as their source text, object members in source order.
  A string is a list of code units below 256.

  The descent is bounded by a fuel argument; every call consumes at least one character for
  every two units of fuel, so \<open>2 * length s + 2\<close> is enough on an input \<open>s\<close>: more fuel
  never changes the result (lemma \<open>JSON_parse_fuel\<close> below).
\<close>

datatype json =
    JNull
  | JBool bool
  | JNumber string
  | JString string
  | JArray "json list"
  | JObject "(string \<times> json) list"

definition json_ws :: "char \<Rightarrow> bool" where
  "json_ws c = (c = CHR 0x09 \<or> c = CHR 0x0A \<or> c = CHR 0x0D \<or> c = CHR 0x20)"

definition skip_ws :: "string \<Rightarrow> string" where
  "skip_ws s = dropWhile json_ws s"

definition is_digit :: "char \<Rightarrow> bool" where
  "is_digit c = (c \<in> set ''0123456789'')"

definition is_hex :: "char \<Rightarrow> bool" where
  "is_hex c = (c \<in> set ''0123456789abcdefABCDEF'')"

fun parse_string_body :: "string \<Rightarrow> (string \<times> string) option" where
  "parse_string_body [] = None"
| "parse_string_body (c # cs) =
     (if c = CHR 0x22 then Some ([], cs)
      else if c = CHR 0x5C then
        (case cs of
           [] \<Rightarrow> None
         | e # cs' \<Rightarrow>
             if e \<in> set [CHR 0x22, CHR 0x5C, CHR ''/'', CHR ''b'', CHR ''f'', CHR ''n'', CHR ''r'', CHR ''t'']
             then map_option (\<lambda>(s, r). (c # e # s, r)) (parse_string_body cs')
             else if e = CHR ''u'' \<and> 4 \<le> length cs' \<and> list_all is_hex (take 4 cs')
             then map_option (\<lambda>(s, r). (c # e # take 4 cs' @ s, r)) (parse_string_body (drop 4 cs'))
             else None)
      else if (of_char c :: nat) < 0x20 then None
      else map_option (\<lambda>(s, r). (c # s, r)) (parse_string_body cs))"

definition parse_digits :: "string \<Rightarrow> (string \<times> string) option" where
  "parse_digits s = (if takeWhile is_digit s = [] then None
                     else Some (takeWhile is_digit s, dropWhile is_digit s))"

definition parse_int_part :: "string \<Rightarrow> (string \<times> string) option" where
  "parse_int_part s =
     (case s of
        [] \<Rightarrow> None
      | c # cs \<Rightarrow> if c = CHR ''0'' then Some ([c], cs) else parse_digits s)"

definition parse_frac_part :: "string \<Rightarrow> (string \<times> string) option" where
  "parse_frac_part s =
     (case s of
        [] \<Rightarrow> Some ([], s)
      | c # cs \<Rightarrow>
          if c = CHR ''.'' then map_option (\<lambda>(ds, r). (c # ds, r)) (parse_digits cs)
          else Some ([], s))"

definition parse_exp_part :: "string \<Rightarrow> (string \<times> string) option" where
  "parse_exp_part s =
     (case s of
        [] \<Rightarrow> Some ([], s)
      | c # cs \<Rightarrow>
          if c = CHR ''e'' \<or> c = CHR ''E'' then
            (case cs of
               [] \<Rightarrow> None
             | g # cs' \<Rightarrow>
                 if g = CHR ''+'' \<or> g = CHR ''-''
                 then map_option (\<lambda>(ds, r). (c # g # ds, r)) (parse_digits cs')
                 else map_option (\<lambda>(ds, r). (c # ds, r)) (parse_digits cs))
          else Some ([], s))"

definition parse_number :: "string \<Rightarrow> (string \<times> string) option" where
  "parse_number s =
     (let (sign, s0) = (case s of [] \<Rightarrow> ([], s) | c # cs \<Rightarrow> if c = CHR ''-'' then ([c], cs) else ([], s))
      in case parse_int_part s0 of
           None \<Rightarrow> None
         | Some (i, s1) \<Rightarrow>
             (case parse_frac_part s1 of
                None \<Rightarrow> None
              | Some (f, s2) \<Rightarrow>
                  (case parse_exp_part s2 of
                     None \<Rightarrow> None
                   | Some (e, s3) \<Rightarrow> Some (sign @ i @ f @ e, s3))))"

fun parse_value :: "nat \<Rightarrow> string \<Rightarrow> (json \<times> string) option"
  and parse_elements :: "nat \<Rightarrow> string \<Rightarrow> (json list \<times> string) option"
  and parse_members :: "nat \<Rightarrow> string \<Rightarrow> ((string \<times> json) list \<times> string) option"
where
  "parse_value 0 s = None"
| "parse_value (Suc n) s =
     (case s of
        [] \<Rightarrow> None
      | c # cs \<Rightarrow>
          if c = CHR ''{'' then
            (case skip_ws cs of
               [] \<Rightarrow> None
             | d # r \<Rightarrow> if d = CHR ''}'' then Some (JObject [], r)
                        else map_option (\<lambda>(ms, r'). (JObject ms, r')) (parse_members n (d # r)))
          else if c = CHR ''['' then
            (case skip_ws cs of
               [] \<Rightarrow> None
             | d # r \<Rightarrow> if d = CHR '']'' then Some (JArray [], r)
                        else map_option (\<lambda>(vs, r'). (JArray vs, r')) (parse_elements n (d # r)))
          else if c = CHR 0x22 then map_option (\<lambda>(str, r). (JString str, r)) (parse_string_body cs)
          else if prefix ''null'' s then Some (JNull, drop 4 s)
          else if prefix ''true'' s then Some (JBool True, drop 4 s)
          else if prefix ''false'' s then Some (JBool False, drop 5 s)
          else if c = CHR ''-'' \<or> is_digit c then map_option (\<lambda>(num, r). (JNumber num, r)) (parse_number s)
          else None)"
| "parse_elements 0 s = None"
| "parse_elements (Suc n) s =
     (case parse_value n s of
        None \<Rightarrow> None
      | Some (v, r) \<Rightarrow>
          (case skip_ws r of
             [] \<Rightarrow> None
           | d # r' \<Rightarrow>
               if d = CHR '']'' then Some ([v], r')
               else if d = CHR '','' then
                 map_option (\<lambda>(vs, r''). (v # vs, r'')) (parse_elements n (skip_ws r'))
               else None))"
| "parse_members 0 s = None"
| "parse_members (Suc n) s =
     (case s of
        [] \<Rightarrow> None
      | q # s1 \<Rightarrow>
          if q \<noteq> CHR 0x22 then None
          else
            (case parse_string_body s1 of
               None \<Rightarrow> None
             | Some (k, s2) \<Rightarrow>
                 (case skip_ws s2 of
                    [] \<Rightarrow> None
                  | col # s3 \<Rightarrow>
                      if col \<noteq> CHR '':'' then None
                      else
                        (case parse_value n (skip_ws s3) of
                           None \<Rightarrow> None
                         | Some (v, s4) \<Rightarrow>
                             (case skip_ws s4 of
                                [] \<Rightarrow> None
                              | d # s5 \<Rightarrow>
                                  if d = CHR ''}'' then Some ([(k, v)], s5)
                                  else if d = CHR '','' then
                                    map_option (\<lambda>(ms, r). ((k, v) # ms, r)) (parse_members n (skip_ws s5))
                                  else None)))))"

definition JSON_parse :: "string \<Rightarrow> js_error + json" where
  "JSON_parse s =
     (case parse_value (2 * length s + 2) (skip_ws s) of
        None \<Rightarrow> Inl SyntaxError
      | Some (v, r) \<Rightarrow> if skip_ws r = [] then Inr v else Inl SyntaxError)"


subsection \<open>String operations of the language\<close>

text \<open>\<open>s.split('\\n')\<close>: the pieces between line feeds; the empty string gives one empty piece.\<close>

fun split_nl :: "string \<Rightarrow> string list" where
  "split_nl [] = [[]]"
| "split_nl (c # cs) =
     (if c = CHR 0x0A then [] # split_nl cs
      else (case split_nl cs of
              [] \<Rightarrow> [[c]]
            | l # ls \<Rightarrow> (c # l) # ls))"

text \<open>
  \<open>s.trim()\<close> strips white space and line terminators at both ends: among the code units
  below 256 these are 9 to 13, 32 and 160.
\<close>

definition js_space :: "char \<Rightarrow> bool" where
  "js_space c = (c \<in> set [CHR 0x09, CHR 0x0A, CHR 0x0B, CHR 0x0C, CHR 0x0D, CHR 0x20, CHR 0xA0])"

definition trim :: "string \<Rightarrow> string" where
  "trim s = rev (dropWhile js_space (rev (dropWhile js_space s)))"

text \<open>\<open>s.startsWith(p)\<close> is \<^const>\<open>prefix\<close>; \<open>s.includes(p)\<close> looks for \<open>p\<close> at every position.\<close>

fun str_includes :: "string \<Rightarrow> string \<Rightarrow> bool" where
  "str_includes [] p = (p = [])"
| "str_includes (c # cs) p = (prefix p (c # cs) \<or> str_includes cs p)"

text \<open>
  \<open>line.match(/<lit>(.+)/)\<close> for a literal \<open>lit\<close> without metacharacters: the leftmost
  position where \<open>lit\<close> is followed by at least one character that \<open>.\<close> matches; group 1
  is the longest run of such characters (the quantifier is greedy and nothing follows it).
  \<open>.\<close> matches every code unit but line feed and carriage return. The result is group 1,
  or \<open>None\<close> where \<open>match\<close> returns \<open>null\<close>.
\<close>

definition dot_matches :: "char \<Rightarrow> bool" where
  "dot_matches c = (c \<noteq> CHR 0x0A \<and> c \<noteq> CHR 0x0D)"

fun match_group :: "string \<Rightarrow> string \<Rightarrow> string option" where
  "match_group lit [] = None"
| "match_group lit (c # cs) =
     (if prefix lit (c # cs) \<and> takeWhile dot_matches (drop (length lit) (c # cs)) \<noteq> []
      then Some (takeWhile dot_matches (drop (length lit) (c # cs)))
      else match_group lit cs)"

subsection \<open>\<open>parseStructuredOutput\<close> (lines 331-363)\<close>

record structured_output =
  screenshots :: "string list"
  reports :: "string list"
  changes :: "string list"
  errors :: "string list"

definition push_match :: "string \<Rightarrow> string \<Rightarrow> string \<Rightarrow> string list \<Rightarrow> string list" where
  "push_match marker lit line acc =
     (if str_includes line marker
      then (case match_group lit line of None \<Rightarrow> acc | Some g \<Rightarrow> acc @ [g])
      else acc)"

definition scan_line :: "structured_output \<Rightarrow> string \<Rightarrow> structured_output" where
  "scan_line output line =
     \<lparr> screenshots = push_match ''Screenshot saved:'' ''Screenshot saved: '' line (screenshots output),
       reports = push_match ''Report generated:'' ''Report generated: '' line (reports output),
       changes = push_match ''File modified:'' ''File modified: '' line (changes output),
       errors = (if str_includes line ''Error:'' then errors output @ [line] else errors output) \<rparr>"

definition parseStructuredOutput :: "string \<Rightarrow> structured_output" where
  "parseStructuredOutput stdout =
     foldl scan_line \<lparr> screenshots = [], reports = [], changes = [], errors = [] \<rparr> (split_nl stdout)"

subsection \<open>\<open>parseClaudeOutput\<close> (lines 314-329)\<close>

text \<open>
  The function returns either what \<open>JSON.parse\<close> gave or the object built by
  \<open>parseStructuredOutput\<close>. The \<open>try\<close> block has three exits: it returns the parsed value,
  it falls through (no candidate line), or \<open>JSON.parse\<close> throws and the \<open>catch\<close> block logs a
  warning; the last two continue with the fallback.
\<close>

datatype outputs = Parsed json | Structured structured_output

definition json_candidate :: "string \<Rightarrow> bool" where
  "json_candidate line = (prefix ''{'' (trim line) \<or> prefix ''['' (trim line))"

definition parseClaudeOutput :: "string \<Rightarrow> js_error + outputs" where
  "parseClaudeOutput stdout =
     (let lines = split_nl stdout;
          jsonLines = filter json_candidate lines;
          attempt = (if length jsonLines > 0
                     then map_sum id Some (JSON_parse (last jsonLines))
                     else Inr None)
      in case attempt of
           Inr (Some v) \<Rightarrow> Inr (Parsed v)
         | Inr None \<Rightarrow> Inr (Structured (parseStructuredOutput stdout))
         | Inl e \<Rightarrow> Inr (Structured (parseStructuredOutput stdout)))"

subsection \<open>The \<open>close\<close> handler of \<open>waitForProcessCompletion\<close> (lines 289-305)\<close>

text \<open>
  The exit code is \<open>null\<close> (\<open>None\<close>) when the child was ended by a signal. The handler
  resolves the promise with the result object, or rejects it if building the object throws.
\<close>

record process_result =
  success :: bool
  exitCode :: "int option"
  res_stdout :: string
  res_stderr :: string
  res_outputs :: outputs

definition on_close :: "int option \<Rightarrow> string \<Rightarrow> string \<Rightarrow> js_error + process_result" where
  "on_close code stdout stderr =
     (case parseClaudeOutput stdout of
        Inl e \<Rightarrow> Inl e
      | Inr out \<Rightarrow>
          Inr \<lparr> success = (code = Some 0), exitCode = code, res_stdout = stdout,
                res_stderr = stderr, res_outputs = out \<rparr>)"

text \<open>The status \<open>startClaudeProcess\<close> gives a task whose promise resolved (line 171).\<close>

datatype status = Starting | Running | Completed | Failed

definition status_of_result :: "process_result \<Rightarrow> status" where
  "status_of_result result = (if success result then Completed else Failed)"

section \<open>The process pool: \<open>src/scripts/parallel-claude-manager.js\<close>\<close>

subsection \<open>Data\<close>

text \<open>
  A worktree object as \<open>GitWorktreeManager.createWorktree\<close> returns it (name, path, branch
  and variation; the creation date, status and metadata are not read by the pool).
\<close>

record worktree =
  wt_name :: string
  wt_path :: string
  wt_branch :: string
  wt_variation :: string

text \<open>
  What the environment makes of the synchronous preparation of one call of
  \<open>startClaudeProcess\<close>: \<open>generateClaudeInstructions\<close> reads and parses a file and may throw
  (line 149, outside the \<open>try\<close>); \<open>spawnClaudeProcess\<close> may throw, which rejects the promise
  that line 153 awaits.
\<close>

datatype prep = PrepOk | InstructionsThrow js_error | SpawnRejects js_error

text \<open>
  Where a call of the asynchronous function \<open>startClaudeProcess\<close> is suspended, or how
  its promise has settled.
\<close>

datatype phase =
    Waiting       \<comment> \<open>in \<open>waitForAvailableSlot\<close>, a 1000 ms timer pending (line 135)\<close>
  | Spawning      \<comment> \<open>at \<open>await this.spawnClaudeProcess(...)\<close> (line 153)\<close>
  | Supervising   \<comment> \<open>at \<open>await this.waitForProcessCompletion(...)\<close> (line 168)\<close>
  | Fulfilled process_result
  | Rejected js_error

datatype signal = SIGTERM   \<comment> \<open>the default signal of \<open>childProcess.kill()\<close>\<close>

text \<open>
  One call of \<open>startClaudeProcess\<close> together with the \<open>claudeProcess\<close> object it creates
  (lines 138-146). The object exists from admission on; while the call is \<open>Waiting\<close> its
  fields hold the values the object will be created with. \<open>signals\<close> lists the \<open>kill()\<close>
  calls made on the child process. Times are milliseconds.
\<close>

record task =
  worktree :: worktree
  prep :: prep
  phase :: phase
  proc_id :: string
  startTime :: nat
  endTime :: "nat option"
  status :: status
  error :: "string option"
  results :: "process_result option"
  signals :: "signal list"

record processStats =
  started :: int
  completed :: int
  failed :: int
  active :: int

text \<open>
  The manager. \<open>activeProcesses\<close> is the \<open>Map\<close> from process id to \<open>claudeProcess\<close> object,
  in insertion order; its values are references, here indices into \<open>tasks\<close>, the store of
  all calls made so far. \<open>processQueue\<close> is declared by the constructor and never written
  by any method but \<open>cleanup\<close>, which empties it. \<open>clock\<close> is the current time.
\<close>

record manager =
  maxConcurrentProcesses :: nat
  activeProcesses :: "(string \<times> nat) list"
  processQueue :: "nat list"
  processStats :: processStats
  tasks :: "task list"
  clock :: nat

text \<open>The constructor (lines 13-34); the default capacity is 3.\<close>

definition new_manager :: "nat \<Rightarrow> manager" where
  "new_manager capacity =
     \<lparr> maxConcurrentProcesses = capacity, activeProcesses = [], processQueue = [],
       processStats = \<lparr> started = 0, completed = 0, failed = 0, active = 0 \<rparr>,
       tasks = [], clock = 0 \<rparr>"

text \<open>\<open>getStatus\<close> (lines 723-731), without the worktree listing.\<close>

record pool_status =
  st_activeProcesses :: nat
  st_maxConcurrentProcesses :: nat
  st_queuedProcesses :: nat
  st_stats :: processStats

definition getStatus :: "manager \<Rightarrow> pool_status" where
  "getStatus m =
     \<lparr> st_activeProcesses = length (activeProcesses m),
       st_maxConcurrentProcesses = maxConcurrentProcesses m,
       st_queuedProcesses = length (processQueue m),
       st_stats = processStats m \<rparr>"

subsection \<open>The synchronous segments of \<open>startClaudeProcess\<close> (lines 127-197)\<close>

text \<open>
  JavaScript runs each piece of code between two suspension points to completion, so each
  segment is one state change. \<open>Map.set\<close> is \<^const>\<open>AList.update\<close> (an existing key keeps its
  place), \<open>Map.delete\<close> is \<^const>\<open>AList.delete\<close>, and \<open>Map.size\<close> is the length of the list.
  Event listeners (\<open>emit\<close>) are taken to leave the manager alone.
\<close>

definition new_task :: "worktree \<Rightarrow> prep \<Rightarrow> task" where
  "new_task wt p =
     \<lparr> worktree = wt, prep = p, phase = Waiting, proc_id = ''claude-'' @ wt_name wt,
       startTime = 0, endTime = None, status = Starting, error = None, results = None,
       signals = [] \<rparr>"

text \<open>
  Lines 138-157, run when the admission check has passed: the object is created, the
  instructions are generated and the child process is spawned.
\<close>

definition admit :: "nat \<Rightarrow> manager \<Rightarrow> manager" where
  "admit i m =
     (let t = (tasks m ! i) \<lparr> startTime := clock m, status := Starting \<rparr>
      in case prep t of
           InstructionsThrow e \<Rightarrow> m \<lparr> tasks := (tasks m)[i := t \<lparr> phase := Rejected e \<rparr>] \<rparr>
         | _ \<Rightarrow> m \<lparr> tasks := (tasks m)[i := t \<lparr> phase := Spawning \<rparr>] \<rparr>)"

text \<open>Lines 159-165, run when the spawn promise has resolved.\<close>

definition register :: "nat \<Rightarrow> manager \<Rightarrow> manager" where
  "register i m =
     (let t = tasks m ! i; st = processStats m
      in m \<lparr> tasks := (tasks m)[i := t \<lparr> status := Running, phase := Supervising \<rparr>],
             activeProcesses := AList.update (proc_id t) i (activeProcesses m),
             processStats := st \<lparr> started := started st + 1, active := active st + 1 \<rparr> \<rparr>)"

text \<open>Lines 170-183 followed by the \<open>finally\<close> block, run when the completion promise resolved.\<close>

definition complete :: "nat \<Rightarrow> process_result \<Rightarrow> manager \<Rightarrow> manager" where
  "complete i result m =
     (let t = tasks m ! i; st = processStats m
      in m \<lparr> tasks := (tasks m)[i := t \<lparr> endTime := Some (clock m),
                                         status := status_of_result result,
                                         results := Some result,
                                         phase := Fulfilled result \<rparr>],
             processStats :=
               (if success result
                then st \<lparr> active := active st - 1, completed := completed st + 1 \<rparr>
                else st \<lparr> active := active st - 1, failed := failed st + 1 \<rparr>),
             activeProcesses := AList.delete (proc_id t) (activeProcesses m) \<rparr>)"

text \<open>
  The \<open>catch\<close> block (lines 185-192) followed by the \<open>finally\<close> block, run when an awaited
  promise inside the \<open>try\<close> rejected.
\<close>

definition fail_task :: "nat \<Rightarrow> js_error \<Rightarrow> manager \<Rightarrow> manager" where
  "fail_task i e m =
     (let t = tasks m ! i; st = processStats m
      in m \<lparr> tasks := (tasks m)[i := t \<lparr> status := Failed, error := Some (message e),
                                         phase := Rejected e \<rparr>],
             processStats := st \<lparr> active := active st - 1, failed := failed st + 1 \<rparr>,
             activeProcesses := AList.delete (proc_id t) (activeProcesses m) \<rparr>)"

text \<open>The timer callback of \<open>waitForProcessCompletion\<close> (lines 266-269) sends the signal.\<close>

definition kill :: "nat \<Rightarrow> manager \<Rightarrow> manager" where
  "kill i m = m \<lparr> tasks := (tasks m)[i := (tasks m ! i) \<lparr> signals := signals (tasks m ! i) @ [SIGTERM] \<rparr>] \<rparr>"

subsection \<open>Events\<close>

text \<open>
  What can happen to a manager. \<open>Call\<close> is an invocation of \<open>startClaudeProcess\<close> up to its
  first suspension; the new call gets the next index in \<open>tasks\<close>. \<open>Poll i\<close> is the timer of
  \<open>waitForAvailableSlot\<close> firing for call \<open>i\<close> (\<open>checkSlot\<close>, lines 367-373). \<open>Resume i\<close> is the
  continuation after the spawn promise of call \<open>i\<close> settled. \<open>Close\<close>, \<open>ChildError\<close> and
  \<open>Timeout\<close> are the three ways \<open>waitForProcessCompletion\<close> settles: the child's \<open>close\<close>
  event with exit code and the captured stdout and stderr, the child's \<open>error\<close> event, and
  the deadline timer. \<open>Tick d\<close> lets \<open>d\<close> milliseconds pass. An event for a call that is not
  suspended at the matching point changes nothing (a settled promise ignores later
  \<open>resolve\<close> and \<open>reject\<close> calls, and \<open>clearTimeout\<close> cancels the deadline).
\<close>

datatype event =
    Call worktree prep
  | Poll nat
  | Resume nat
  | Close nat "int option" string string
  | ChildError nat js_error
  | Timeout nat
  | Tick nat

definition at_phase :: "nat \<Rightarrow> phase \<Rightarrow> manager \<Rightarrow> bool" where
  "at_phase i ph m = (i < length (tasks m) \<and> phase (tasks m ! i) = ph)"

fun step :: "event \<Rightarrow> manager \<Rightarrow> manager" where
  "step (Call wt p) m =
     (let i = length (tasks m); m' = m \<lparr> tasks := tasks m @ [new_task wt p] \<rparr>
      in if length (activeProcesses m) \<ge> maxConcurrentProcesses m then m' else admit i m')"
| "step (Poll i) m =
     (if at_phase i Waiting m \<and> length (activeProcesses m) < maxConcurrentProcesses m
      then admit i m else m)"
| "step (Resume i) m =
     (if at_phase i Spawning m
      then (case prep (tasks m ! i) of
              SpawnRejects e \<Rightarrow> fail_task i e m
            | _ \<Rightarrow> register i m)
      else m)"
| "step (Close i code out err) m =
     (if at_phase i Supervising m
      then (case on_close code out err of
              Inl e \<Rightarrow> fail_task i e m
            | Inr result \<Rightarrow> complete i result m)
      else m)"
| "step (ChildError i e) m =
     (if at_phase i Supervising m then fail_task i e m else m)"
| "step (Timeout i) m =
     (if at_phase i Supervising m
      then fail_task i (Error (''Process timed out: '' @ proc_id (tasks m ! i))) (kill i m)
      else m)"
| "step (Tick d) m = m \<lparr> clock := clock m + d \<rparr>"

definition exec :: "event list \<Rightarrow> manager \<Rightarrow> manager" where
  "exec es m = foldl (\<lambda>m e. step e m) m es"

text \<open>The tasks whose \<open>claudeProcess.status\<close> is \<open>running\<close>.\<close>

definition running :: "manager \<Rightarrow> nat" where
  "running m = length (filter (\<lambda>t. status t = Running) (tasks m))"

subsection \<open>\<open>calculateProcessDuration\<close> (lines 378-385)\<close>

definition calculateProcessDuration :: "manager \<Rightarrow> string \<Rightarrow> int option" where
  "calculateProcessDuration m processId =
     (case find (\<lambda>p. str_includes (proc_id p) processId)
             (map (\<lambda>(k, r). tasks m ! r) (activeProcesses m)) of
        None \<Rightarrow> None
      | Some p \<Rightarrow>
          (case endTime p of
             None \<Rightarrow> None
           | Some e \<Rightarrow> Some (int e - int (startTime p))))"

section \<open>Provisioning: \<open>src/scripts/git-worktree-manager.js\<close>\<close>

text \<open>
  The commands that change the shared repository, each run through \<open>execAsync\<close>: the command
  is launched when \<open>execAsync\<close> is called and completes later, while the caller is suspended.
  A repository event is the launch or the completion of one command.
\<close>

datatype git_command =
    WorktreeAdd string       \<comment> \<open>\<open>git worktree add -b <branch> <path> <commit>\<close> (line 62)\<close>
  | Checkout string          \<comment> \<open>\<open>git checkout <target>\<close> (line 458)\<close>
  | Merge string             \<comment> \<open>\<open>git merge <branch> --no-ff\<close> (line 461)\<close>
  | WorktreeRemove string    \<comment> \<open>\<open>git worktree remove --force <path>\<close> (line 495)\<close>
  | BranchDelete string      \<comment> \<open>\<open>git branch -D <branch>\<close> (line 498)\<close>

datatype repo_event = Begin git_command | End git_command

text \<open>
  Mutual exclusion of the commands in a sequence of repository events: no command is
  launched while another one is running. The first argument is the running command.
\<close>

fun serialized_from :: "git_command option \<Rightarrow> repo_event list \<Rightarrow> bool" where
  "serialized_from cur [] = True"
| "serialized_from None (Begin c # es) = serialized_from (Some c) es"
| "serialized_from (Some r) (Begin c # es) = False"
| "serialized_from None (End c # es) = False"
| "serialized_from (Some r) (End c # es) = (r = c \<and> serialized_from None es)"

definition serialized :: "repo_event list \<Rightarrow> bool" where
  "serialized es = serialized_from None es"

text \<open>
  What the program reads from outside: whether a git command fails, whether the file-system
  set-up of a worktree (\<open>setupWorktreeEnvironment\<close>) or the registration of its dev server
  (\<open>GitWorktreeManager.startClaudeProcess\<close>) throws, the value of \<open>Date.now()\<close> when the
  worktree of a variation is created, and the outcome of the preparation of a worker call.
\<close>

record environment =
  git_error :: "git_command \<Rightarrow> js_error option"
  setup_error :: "string \<Rightarrow> js_error option"
  devserver_error :: "string \<Rightarrow> js_error option"
  timestamp :: "string \<Rightarrow> string"
  prep_of :: "worktree \<Rightarrow> prep"

record variation_spec =
  spec_name :: string

text \<open>\<open>createWorktree\<close> (lines 53-86), with the default \<open>branchPrefix\<close> and \<open>baseDir\<close>.\<close>

definition worktreeName :: "environment \<Rightarrow> string \<Rightarrow> string" where
  "worktreeName env variationName =
     ''ui-variation-'' @ variationName @ ''-'' @ timestamp env variationName"

definition createWorktree :: "environment \<Rightarrow> string \<Rightarrow> js_error + worktree" where
  "createWorktree env variationName =
     (let name = worktreeName env variationName
      in case git_error env (WorktreeAdd name) of
           Some e \<Rightarrow> Inl e
         | None \<Rightarrow>
             (case setup_error env name of
                Some e \<Rightarrow> Inl e
              | None \<Rightarrow>
                  Inr \<lparr> wt_name = name, wt_path = ''worktrees/'' @ name, wt_branch = name,
                        wt_variation = variationName \<rparr>))"

text \<open>The repository events of one \<open>createWorktree\<close> call: the launch and the completion of line 62.\<close>

definition createWorktree_launch :: "environment \<Rightarrow> string \<Rightarrow> repo_event" where
  "createWorktree_launch env variationName = Begin (WorktreeAdd (worktreeName env variationName))"

definition createWorktree_completion :: "environment \<Rightarrow> string \<Rightarrow> repo_event" where
  "createWorktree_completion env variationName = End (WorktreeAdd (worktreeName env variationName))"

text \<open>
  \<open>createUIVariations\<close> (lines 296-334): a loop that awaits each \<open>createWorktree\<close> before it
  starts the next, inside a \<open>try\<close> of its own. The result pairs the list the function
  returns with the repository events it causes.
\<close>

datatype variation_status = Created | CreationFailed

record variation_result =
  vr_variation :: string
  vr_worktree :: "worktree option"
  vr_status :: variation_status
  vr_error :: "string option"

definition createUIVariation :: "environment \<Rightarrow> string \<Rightarrow> variation_result" where
  "createUIVariation env variationName =
     (case createWorktree env variationName of
        Inl e \<Rightarrow> \<lparr> vr_variation = variationName, vr_worktree = None,
                  vr_status = CreationFailed, vr_error = Some (message e) \<rparr>
      | Inr wt \<Rightarrow>
          (case devserver_error env (wt_name wt) of
             Some e \<Rightarrow> \<lparr> vr_variation = variationName, vr_worktree = None,
                         vr_status = CreationFailed, vr_error = Some (message e) \<rparr>
           | None \<Rightarrow> \<lparr> vr_variation = variationName, vr_worktree = Some wt,
                       vr_status = Created, vr_error = None \<rparr>))"

fun createUIVariations :: "environment \<Rightarrow> string list \<Rightarrow> variation_result list \<times> repo_event list" where
  "createUIVariations env [] = ([], [])"
| "createUIVariations env (v # vs) =
     (let r = createUIVariation env v; (rs, es) = createUIVariations env vs
      in (r # rs, createWorktree_launch env v # createWorktree_completion env v # es))"

section \<open>Sessions: \<open>startVariationGeneration\<close> (lines 49-96)\<close>

text \<open>\<open>createVariationWorktree\<close> (lines 98-125).\<close>

definition createVariationWorktree :: "environment \<Rightarrow> variation_spec \<Rightarrow> js_error + worktree" where
  "createVariationWorktree env spec =
     (case createWorktree env (spec_name spec) of
        Inl e \<Rightarrow> Inl e
      | Inr wt \<Rightarrow>
          (case devserver_error env (wt_name wt) of
             Some e \<Rightarrow> Inl e
           | None \<Rightarrow> Inr wt))"

text \<open>
  Line 62-64: \<open>variationSpecs.map(spec => this.createVariationWorktree(spec))\<close> calls
  \<open>createVariationWorktree\<close> for every specification in turn, and each call runs up to its
  first suspension, which is the \<open>await execAsync(...)\<close> of \<open>createWorktree\<close>: all the git
  commands are launched before \<open>Promise.all\<close> is awaited. They complete afterwards in an
  order the program does not control; \<open>completion\<close> lists the positions of the
  specifications in that order.
\<close>

definition provisioning_events :: "environment \<Rightarrow> nat list \<Rightarrow> variation_spec list \<Rightarrow> repo_event list" where
  "provisioning_events env completion variationSpecs =
     map (\<lambda>spec. createWorktree_launch env (spec_name spec)) variationSpecs
     @ map (\<lambda>i. createWorktree_completion env (spec_name (variationSpecs ! i)))
         (filter (\<lambda>i. i < length variationSpecs) completion)"

text \<open>
  \<open>Promise.all\<close>: the values if every promise fulfils, a rejection otherwise. Which of
  several rejections is reported depends on timing; the first in list order is taken.
\<close>

fun promise_all :: "(js_error + 'a) list \<Rightarrow> js_error + 'a list" where
  "promise_all [] = Inr []"
| "promise_all (Inl e # ps) = Inl e"
| "promise_all (Inr v # ps) = (case promise_all ps of Inl e \<Rightarrow> Inl e | Inr vs \<Rightarrow> Inr (v # vs))"

fun is_settled :: "phase \<Rightarrow> bool" where
  "is_settled (Fulfilled r) = True"
| "is_settled (Rejected e) = True"
| "is_settled ph = False"

definition all_settled :: "nat list \<Rightarrow> manager \<Rightarrow> bool" where
  "all_settled ids m = list_all (\<lambda>i. is_settled (phase (tasks m ! i))) ids"

text \<open>
  \<open>await Promise.allSettled(claudePromises)\<close>: events are taken from the schedule until
  every call of the session has settled; \<open>None\<close> if the schedule ends before that.
\<close>

fun await_all_settled :: "nat list \<Rightarrow> event list \<Rightarrow> manager \<Rightarrow> manager option" where
  "await_all_settled ids [] m = (if all_settled ids m then Some m else None)"
| "await_all_settled ids (e # es) m =
     (if all_settled ids m then Some m else await_all_settled ids es (step e m))"

text \<open>One entry of \<open>session.results\<close> (lines 75-81).\<close>

record session_entry =
  se_variation :: string
  se_worktree :: worktree
  se_success :: bool
  se_result :: "js_error + process_result"
  se_duration :: "int option"

definition session_entry_of :: "manager \<Rightarrow> variation_spec \<Rightarrow> worktree \<Rightarrow> nat \<Rightarrow> session_entry" where
  "session_entry_of m spec wt i =
     \<lparr> se_variation = spec_name spec,
       se_worktree = wt,
       se_success = (case phase (tasks m ! i) of Fulfilled r \<Rightarrow> True | _ \<Rightarrow> False),
       se_result = (case phase (tasks m ! i) of
                      Fulfilled r \<Rightarrow> Inr r
                    | Rejected e \<Rightarrow> Inl e
                    | _ \<Rightarrow> Inl (Error ''pending'')),
       se_duration = calculateProcessDuration m (wt_name wt) \<rparr>"

text \<open>\<open>generateSessionReport\<close> (lines 600-633), the part of the report about outcomes.\<close>

record report_variation =
  rv_name :: string
  rv_success :: bool
  rv_duration :: "int option"
  rv_error :: "string option"

record session_report =
  totalVariations :: nat
  successfulVariations :: nat
  failedVariations :: nat
  report_processStats :: processStats
  report_variations :: "report_variation list"

definition generateSessionReport :: "manager \<Rightarrow> variation_spec list \<Rightarrow> session_entry list \<Rightarrow> session_report" where
  "generateSessionReport m variationSpecs entries =
     \<lparr> totalVariations = length variationSpecs,
       successfulVariations = length (filter se_success entries),
       failedVariations = length (filter (\<lambda>r. \<not> se_success r) entries),
       report_processStats = processStats m,
       report_variations =
         map (\<lambda>r. \<lparr> rv_name = se_variation r, rv_success = se_success r,
                     rv_duration = se_duration r,
                     rv_error = (if se_success r then None
                                 else (case se_result r of
                                         Inl e \<Rightarrow> Some (message e)
                                       | Inr v \<Rightarrow> None)) \<rparr>) entries \<rparr>"

text \<open>
  The session. Provisioning goes through \<open>Promise.all\<close> and the \<open>catch\<close> block rethrows
  (lines 92-95). Otherwise \<open>worktrees.map(worktree => this.startClaudeProcess(...))\<close> makes
  all the calls one after the other, each up to its first suspension; the continuations of
  the spawn promises then run in call order, before any timer or child event; after that
  the events of the schedule happen until every call has settled. The outcome is the thrown
  error, or the entries and the report, or \<open>Pending\<close> when the schedule ends with a call
  unsettled.
\<close>

datatype session_outcome =
    Threw js_error
  | Returned "session_entry list" session_report
  | Pending

definition startVariationGeneration ::
  "environment \<Rightarrow> event list \<Rightarrow> variation_spec list \<Rightarrow> manager \<Rightarrow> session_outcome \<times> manager" where
  "startVariationGeneration env schedule variationSpecs m =
     (case promise_all (map (createVariationWorktree env) variationSpecs) of
        Inl e \<Rightarrow> (Threw e, m)
      | Inr worktrees \<Rightarrow>
          (let ids = [length (tasks m) ..< length (tasks m) + length worktrees];
               m1 = exec (map (\<lambda>wt. Call wt (prep_of env wt)) worktrees) m;
               m2 = exec (map Resume ids) m1
           in case await_all_settled ids schedule m2 of
                None \<Rightarrow> (Pending, exec schedule m2)
              | Some m3 \<Rightarrow>
                  (let entries = map (\<lambda>(spec, wt, i). session_entry_of m3 spec wt i)
                                   (zip variationSpecs (zip worktrees ids))
                   in (Returned entries (generateSessionReport m3 variationSpecs entries), m3))))"

section \<open>Invariant and example scenarios\<close>

text \<open>
  An invariant of the manager: every entry of \<open>activeProcesses\<close> refers to an existing call
  that was registered under its own id and is still suspended in
  \<open>waitForProcessCompletion\<close>; and a call that has not settled has no \<open>endTime\<close>.
\<close>

definition registry_ok :: "manager \<Rightarrow> bool" where
  "registry_ok m =
     ((\<forall>(k, r) \<in> set (activeProcesses m).
          r < length (tasks m) \<and> proc_id (tasks m ! r) = k \<and> phase (tasks m ! r) = Supervising)
      \<and> (\<forall>t \<in> set (tasks m). \<not> is_settled (phase t) \<longrightarrow> endTime t = None))"

text \<open>An environment in which nothing fails, and worktrees for direct calls.\<close>

definition env_all_succeed :: environment where
  "env_all_succeed =
     \<lparr> git_error = (\<lambda>c. None), setup_error = (\<lambda>n. None), devserver_error = (\<lambda>n. None),
       timestamp = (\<lambda>v. ''1700000000000''), prep_of = (\<lambda>wt. PrepOk) \<rparr>"

definition worktree_named :: "string \<Rightarrow> worktree" where
  "worktree_named n =
     \<lparr> wt_name = n, wt_path = ''worktrees/'' @ n, wt_branch = n, wt_variation = n \<rparr>"

text \<open>
  Four variants submitted to a manager of the default capacity 3, observed when
  \<open>startVariationGeneration\<close> is suspended at \<open>Promise.allSettled\<close> and no child has ended.
\<close>

definition over_capacity_session :: "session_outcome \<times> manager" where
  "over_capacity_session =
     startVariationGeneration env_all_succeed []
       [\<lparr> spec_name = ''a'' \<rparr>, \<lparr> spec_name = ''b'' \<rparr>, \<lparr> spec_name = ''c'' \<rparr>, \<lparr> spec_name = ''d'' \<rparr>]
       (new_manager 3)"

text \<open>
  Capacity 1: call 0 runs, call 1 is made while it runs and waits; then the deadline of
  call 0 passes.
\<close>

definition before_timeout :: manager where
  "before_timeout =
     exec [Call (worktree_named ''a'') PrepOk, Resume 0, Call (worktree_named ''b'') PrepOk,
           Tick 30]
       (new_manager 1)"

definition timeout_scenario :: manager where
  "timeout_scenario = step (Timeout 0) before_timeout"

text \<open>
  Capacity 1, time in units of 100 ms: call 0 runs; call 1 is made at time 0 and call 2 at
  time 5, both wait, each with a timer of its own of period 10. Call 1 polls at 10 (full),
  the child of call 0 closes at 12, call 2 polls at 15 and is admitted, call 1 polls at 20
  (full again).
\<close>

definition polling_scenario :: manager where
  "polling_scenario =
     exec [Call (worktree_named ''x'') PrepOk, Resume 0,
           Call (worktree_named ''a'') PrepOk, Tick 5, Call (worktree_named ''b'') PrepOk,
           Tick 5, Poll 1, Tick 2, Close 0 (Some 0) [] [],
           Tick 3, Poll 2, Resume 2, Tick 5, Poll 1]
       (new_manager 1)"


text \<open>Capacity 1 with one call running.\<close>

definition one_running :: manager where
  "one_running = exec [Call (worktree_named ''x'') PrepOk, Resume 0] (new_manager 1)"

section \<open>Theorems\<close>

text \<open>
  C7. Applied to the empty list of comparisons, \<open>analyzeComparisons\<close> returns the initial
  analysis object unchanged: \<open>totalComparisons\<close> and \<open>averageSimilarity\<close> are 0, there is no
  most similar and no most different pair, and the cluster list is empty. The early return
  at line 538 is taken before any division or indexing.
\<close>

theorem analyzeComparisons_empty:
  "analyzeComparisons [] =
     \<lparr> totalComparisons = 0, averageSimilarity = 0,
       mostSimilarPair = None, mostDifferentPair = None, clusters = [] \<rparr>"
  by (simp add: analyzeComparisons_def)





subsection \<open>The fuel of the JSON parser\<close>

text \<open>Every successful parse consumes input, so the fuel bounds nothing that can be parsed.\<close>

lemma skip_ws_length: "length (skip_ws s) \<le> length s"
  by (simp add: skip_ws_def length_dropWhile_le)

lemma parse_string_body_shorter:
  "parse_string_body s = Some (x, r) \<Longrightarrow> length r < length s"
proof (induction s arbitrary: x r rule: parse_string_body.induct)
  case 1 then show ?case by simp
next
  case (2 c cs)
  show ?case
  proof (cases "c = CHR 0x22")
    case True with "2.prems" show ?thesis by simp
  next
    case nq: False
    show ?thesis
    proof (cases "c = CHR 0x5C")
      case True
      show ?thesis
      proof (cases cs)
        case Nil with "2.prems" nq True show ?thesis by simp
      next
        case (Cons e cs')
        show ?thesis
        proof (cases "e \<in> set [CHR 0x22, CHR 0x5C, CHR ''/'', CHR ''b'', CHR ''f'', CHR ''n'', CHR ''r'', CHR ''t'']")
          case e: True
          with "2.prems" nq True Cons obtain x' where "parse_string_body cs' = Some (x', r)"
            by (auto simp del: set_simps)
          from "2.IH"(1)[OF nq True Cons e this] Cons show ?thesis by simp
        next
          case e: False
          with "2.prems" nq True Cons
          have u: "e = CHR ''u'' \<and> 4 \<le> length cs' \<and> list_all is_hex (take 4 cs')"
            by (auto simp del: set_simps split: if_splits)
          with "2.prems" nq True Cons e obtain x' where
            "parse_string_body (drop 4 cs') = Some (x', r)"
            by (auto simp del: set_simps)
          from "2.IH"(2)[OF nq True Cons e u this] Cons show ?thesis by simp
        qed
      qed
    next
      case False
      with "2.prems" nq obtain x' where "parse_string_body cs = Some (x', r)"
        by (auto split: if_splits)
      moreover from "2.prems" nq False have "\<not> (of_char c :: nat) < 0x20"
        by (auto split: if_splits)
      ultimately show ?thesis using "2.IH"(3)[OF nq False] by fastforce
    qed
  qed
qed

lemma parse_digits_shorter: "parse_digits s = Some (d, r) \<Longrightarrow> length r < length s"
proof -
  assume a: "parse_digits s = Some (d, r)"
  then have "takeWhile is_digit s \<noteq> []" "r = dropWhile is_digit s"
    by (auto simp: parse_digits_def split: if_splits)
  moreover have "length (takeWhile is_digit s) + length (dropWhile is_digit s) = length s"
    by (metis length_append takeWhile_dropWhile_id)
  ultimately show ?thesis by (cases "takeWhile is_digit s") auto
qed

lemma parse_int_part_shorter: "parse_int_part s = Some (d, r) \<Longrightarrow> length r < length s"
  by (auto simp: parse_int_part_def split: list.splits if_splits dest: parse_digits_shorter)

lemma parse_frac_part_shorter: "parse_frac_part s = Some (d, r) \<Longrightarrow> length r \<le> length s"
  by (auto simp: parse_frac_part_def split: list.splits if_splits dest: parse_digits_shorter)

lemma parse_exp_part_shorter: "parse_exp_part s = Some (d, r) \<Longrightarrow> length r \<le> length s"
  by (auto simp: parse_exp_part_def split: list.splits if_splits dest: parse_digits_shorter)

lemma parse_number_shorter: "parse_number s = Some (x, r) \<Longrightarrow> length r < length s"
proof -
  assume a: "parse_number s = Some (x, r)"
  define s0 where "s0 = snd (case s of [] \<Rightarrow> ([], s) | c # cs \<Rightarrow> if c = CHR ''-'' then ([c], cs) else ([], s))"
  have l0: "length s0 \<le> length s" by (auto simp: s0_def split: list.splits)
  from a obtain i s1 f s2 e where
    "parse_int_part s0 = Some (i, s1)" "parse_frac_part s1 = Some (f, s2)"
    "parse_exp_part s2 = Some (e, r)"
    by (auto simp: parse_number_def s0_def Let_def case_prod_unfold split: option.splits)
  from parse_int_part_shorter[OF this(1)] parse_frac_part_shorter[OF this(2)]
    parse_exp_part_shorter[OF this(3)] l0
  show ?thesis by simp
qed

lemma skip_ws_Cons_length: "skip_ws s = d # r \<Longrightarrow> length r < length s"
  using skip_ws_length[of s] by simp

lemma value_object_consumes:
  assumes IHm: "\<And>s ms r. parse_members n s = Some (ms, r) \<Longrightarrow> length r < length s"
    and a: "parse_value (Suc n) (c # cs) = Some (x, r)" and obj: "c = CHR ''{''"
  shows "length r < length (c # cs)"
proof (cases "skip_ws cs")
  case Nil with a obj show ?thesis by simp
next
  case (Cons d r0)
  note sk = skip_ws_Cons_length[OF Cons]
  show ?thesis
  proof (cases "d = CHR ''}''")
    case True
    with a obj Cons sk show ?thesis by simp
  next
    case False
    with a obj Cons obtain ms where "parse_members n (d # r0) = Some (ms, r)"
      by auto
    from IHm[OF this] sk show ?thesis by simp
  qed
qed

lemma value_array_consumes:
  assumes IHe: "\<And>s vs r. parse_elements n s = Some (vs, r) \<Longrightarrow> length r < length s"
    and a: "parse_value (Suc n) (c # cs) = Some (x, r)" and arr: "c \<noteq> CHR ''{''" "c = CHR ''[''"
  shows "length r < length (c # cs)"
proof (cases "skip_ws cs")
  case Nil with a arr show ?thesis by simp
next
  case (Cons d r0)
  note sk = skip_ws_Cons_length[OF Cons]
  show ?thesis
  proof (cases "d = CHR '']''")
    case True
    with a arr Cons sk show ?thesis by simp
  next
    case False
    with a arr Cons obtain vs where "parse_elements n (d # r0) = Some (vs, r)"
      by auto
    from IHe[OF this] sk show ?thesis by simp
  qed
qed

lemma value_string_consumes:
  assumes a: "parse_value (Suc n) (c # cs) = Some (x, r)"
    and str: "c \<noteq> CHR ''{''" "c \<noteq> CHR ''[''" "c = CHR 0x22"
  shows "length r < length (c # cs)"
proof -
  from a str obtain y where "parse_string_body cs = Some (y, r)" by auto
  from parse_string_body_shorter[OF this] show ?thesis by simp
qed

lemma value_scalar_consumes:
  assumes a: "parse_value (Suc n) (c # cs) = Some (x, r)"
    and other: "c \<noteq> CHR ''{''" "c \<noteq> CHR ''[''" "c \<noteq> CHR 0x22"
  shows "length r < length (c # cs)"
proof -
  from a other have
    "(r = drop 4 (c # cs)) \<or> (r = drop 5 (c # cs)) \<or> (\<exists>y. parse_number (c # cs) = Some (y, r))"
    by (auto simp del: prefix_code drop_Cons' split: if_splits)
  then show ?thesis by (auto dest: parse_number_shorter)
qed

lemma parse_value_consumes:
  assumes IHe: "\<And>s vs r. parse_elements n s = Some (vs, r) \<Longrightarrow> length r < length s"
    and IHm: "\<And>s ms r. parse_members n s = Some (ms, r) \<Longrightarrow> length r < length s"
    and a: "parse_value (Suc n) s = Some (x, r)"
  shows "length r < length s"
proof (cases s)
  case Nil
  with a show ?thesis by simp
next
  case (Cons c cs)
  with a have a': "parse_value (Suc n) (c # cs) = Some (x, r)" by simp
  consider (obj) "c = CHR ''{''" | (arr) "c \<noteq> CHR ''{''" "c = CHR ''[''"
    | (str) "c \<noteq> CHR ''{''" "c \<noteq> CHR ''[''" "c = CHR 0x22"
    | (other) "c \<noteq> CHR ''{''" "c \<noteq> CHR ''[''" "c \<noteq> CHR 0x22" by blast
  then have "length r < length (c # cs)"
  proof cases
    case obj from value_object_consumes[OF IHm a' obj] show ?thesis .
  next
    case arr from value_array_consumes[OF IHe a' arr] show ?thesis .
  next
    case str from value_string_consumes[OF a' str] show ?thesis .
  next
    case other from value_scalar_consumes[OF a' other] show ?thesis .
  qed
  with Cons show ?thesis by simp
qed

lemma parse_elements_consumes:
  assumes IHv: "\<And>s v r. parse_value n s = Some (v, r) \<Longrightarrow> length r < length s"
    and IHe: "\<And>s vs r. parse_elements n s = Some (vs, r) \<Longrightarrow> length r < length s"
    and IHm: "\<And>s ms r. parse_members n s = Some (ms, r) \<Longrightarrow> length r < length s"
    and a: "parse_elements (Suc n) s = Some (x, r)"
  shows "length r < length s"
  proof -
    from a obtain v r1 where pv: "parse_value n s = Some (v, r1)"
      by (auto split: option.splits)
    from IHv[OF pv] have l1: "length r1 < length s" .
    from a pv obtain d r2 where sk: "skip_ws r1 = d # r2"
      by (cases "skip_ws r1") auto
    note l2 = skip_ws_Cons_length[OF sk]
    show ?thesis
    proof (cases "d = CHR '']''")
      case True
      with a pv sk have "r = r2" by simp
      with l1 l2 show ?thesis by simp
    next
      case False
      with a pv sk obtain x' where "parse_elements n (skip_ws r2) = Some (x', r)"
        by (auto split: if_splits)
      from IHe[OF this] skip_ws_length[of r2] l1 l2 show ?thesis by simp
    qed
  qed

lemma parse_members_consumes:
  assumes IHv: "\<And>s v r. parse_value n s = Some (v, r) \<Longrightarrow> length r < length s"
    and IHe: "\<And>s vs r. parse_elements n s = Some (vs, r) \<Longrightarrow> length r < length s"
    and IHm: "\<And>s ms r. parse_members n s = Some (ms, r) \<Longrightarrow> length r < length s"
    and a: "parse_members (Suc n) s = Some (x, r)"
  shows "length r < length s"
  proof -
    from a obtain q s1 where s: "s = q # s1" and q: "q = CHR 0x22"
      by (cases s) (auto split: if_splits)
    from a s q obtain k s2 where pk: "parse_string_body s1 = Some (k, s2)"
      by (auto split: option.splits)
    from a s q pk obtain col s3 where sk2: "skip_ws s2 = col # s3" and col: "col = CHR '':''"
      by (cases "skip_ws s2") (auto split: if_splits)
    from a s q pk sk2 col obtain v s4 where pv: "parse_value n (skip_ws s3) = Some (v, s4)"
      by (auto split: option.splits)
    from a s q pk sk2 col pv obtain d s5 where sk4: "skip_ws s4 = d # s5"
      by (cases "skip_ws s4") auto
    have l: "length s4 < length s"
      using parse_string_body_shorter[OF pk] skip_ws_Cons_length[OF sk2]
        skip_ws_length[of s3] IHv[OF pv] s by simp
    note l5 = skip_ws_Cons_length[OF sk4]
    show ?thesis
    proof (cases "d = CHR ''}''")
      case True
      with a s q pk sk2 col pv sk4 have "r = s5" by simp
      with l l5 show ?thesis by simp
    next
      case False
      with a s q pk sk2 col pv sk4 obtain x' where
        "parse_members n (skip_ws s5) = Some (x', r)"
        by (auto split: if_splits)
      from IHm[OF this] skip_ws_length[of s5] l l5 show ?thesis by simp
    qed
  qed

lemma parse_consumes_aux:
  "(\<forall>s v r. parse_value n s = Some (v, r) \<longrightarrow> length r < length s)
   \<and> (\<forall>s vs r. parse_elements n s = Some (vs, r) \<longrightarrow> length r < length s)
   \<and> (\<forall>s ms r. parse_members n s = Some (ms, r) \<longrightarrow> length r < length s)"
proof (induction n)
  case 0
  show ?case by simp
next
  case (Suc n)
  then have IHv: "\<And>s v r. parse_value n s = Some (v, r) \<Longrightarrow> length r < length s"
    and IHe: "\<And>s vs r. parse_elements n s = Some (vs, r) \<Longrightarrow> length r < length s"
    and IHm: "\<And>s ms r. parse_members n s = Some (ms, r) \<Longrightarrow> length r < length s"
    by blast+
  have v: "length r < length s" if "parse_value (Suc n) s = Some (v, r)" for s v r
    using IHe IHm that by (rule parse_value_consumes)
  have e: "length r < length s" if "parse_elements (Suc n) s = Some (vs, r)" for s vs r
    using IHv IHe IHm that by (rule parse_elements_consumes)
  have m: "length r < length s" if "parse_members (Suc n) s = Some (ms, r)" for s ms r
    using IHv IHe IHm that by (rule parse_members_consumes)
  from v e m show ?case by blast
qed

lemma parse_value_shorter: "parse_value n s = Some (v, r) \<Longrightarrow> length r < length s"
  and parse_elements_shorter: "parse_elements n s = Some (vs, r) \<Longrightarrow> length r < length s"
  and parse_members_shorter: "parse_members n s = Some (ms, r) \<Longrightarrow> length r < length s"
  using parse_consumes_aux[of n] by blast+

lemma parse_value_Suc_cong:
  assumes "\<And>c cs d r. s = c # cs \<Longrightarrow> skip_ws cs = d # r \<Longrightarrow>
             parse_members n (d # r) = parse_members n' (d # r)
             \<and> parse_elements n (d # r) = parse_elements n' (d # r)"
  shows "parse_value (Suc n) s = parse_value (Suc n') s"
proof (cases s)
  case Nil then show ?thesis by simp
next
  case (Cons c cs)
  show ?thesis
  proof (cases "skip_ws cs")
    case Nil
    with Cons show ?thesis by simp
  next
    case sk: (Cons d r)
    from assms[OF Cons sk] have m: "parse_members n (d # r) = parse_members n' (d # r)"
      and e: "parse_elements n (d # r) = parse_elements n' (d # r)" by simp_all
    show ?thesis unfolding Cons parse_value.simps list.case sk m e by (rule refl)
  qed
qed

lemma parse_elements_Suc_cong:
  assumes "parse_value n s = parse_value n' s"
    and "\<And>v r d r'. parse_value n s = Some (v, r) \<Longrightarrow> skip_ws r = d # r' \<Longrightarrow>
           parse_elements n (skip_ws r') = parse_elements n' (skip_ws r')"
  shows "parse_elements (Suc n) s = parse_elements (Suc n') s"
proof (cases "parse_value n s")
  case None
  with assms(1) show ?thesis by simp
next
  case (Some p)
  obtain v r where p: "p = (v, r)" by (cases p)
  show ?thesis
  proof (cases "skip_ws r")
    case Nil
    with Some p assms(1) show ?thesis by simp
  next
    case (Cons d r')
    from assms(2)[OF Some[unfolded p] Cons] Some p assms(1) Cons show ?thesis by simp
  qed
qed

lemma parse_members_Suc_cong:
  assumes "\<And>q s1 k s2 col s3. s = q # s1 \<Longrightarrow> parse_string_body s1 = Some (k, s2) \<Longrightarrow>
             skip_ws s2 = col # s3 \<Longrightarrow>
             parse_value n (skip_ws s3) = parse_value n' (skip_ws s3)"
    and "\<And>q s1 k s2 col s3 v s4 d s5. s = q # s1 \<Longrightarrow> parse_string_body s1 = Some (k, s2) \<Longrightarrow>
             skip_ws s2 = col # s3 \<Longrightarrow> parse_value n (skip_ws s3) = Some (v, s4) \<Longrightarrow>
             skip_ws s4 = d # s5 \<Longrightarrow>
             parse_members n (skip_ws s5) = parse_members n' (skip_ws s5)"
  shows "parse_members (Suc n) s = parse_members (Suc n') s"
proof (cases s)
  case Nil then show ?thesis by simp
next
  case (Cons q s1)
  show ?thesis
  proof (cases "parse_string_body s1")
    case None with Cons show ?thesis by simp
  next
    case (Some p)
    obtain k s2 where p: "p = (k, s2)" by (cases p)
    note pk = Some[unfolded p]
    show ?thesis
    proof (cases "skip_ws s2")
      case Nil with Cons pk show ?thesis by simp
    next
      case sk2: (Cons col s3)
      note ev = assms(1)[OF Cons pk sk2]
      show ?thesis
      proof (cases "parse_value n (skip_ws s3)")
        case None
        with ev have "parse_value n' (skip_ws s3) = None" by simp
        with None Cons pk sk2 show ?thesis by simp
      next
        case (Some p')
        obtain v s4 where p': "p' = (v, s4)" by (cases p')
        note pv = Some[unfolded p']
        from ev pv have pv': "parse_value n' (skip_ws s3) = Some (v, s4)" by simp
        show ?thesis
        proof (cases "skip_ws s4")
          case Nil with Cons pk sk2 pv pv' show ?thesis by simp
        next
          case sk4: (Cons d s5)
          note r = assms(2)[OF Cons pk sk2 pv sk4]
          show ?thesis
            unfolding Cons parse_members.simps list.case pk option.case prod.case sk2 pv pv' sk4 r
            by (rule refl)
        qed
      qed
    qed
  qed
qed

lemma fuel_aux:
  "(\<forall>s. 2 * length s \<le> n \<longrightarrow> parse_value (Suc n) s = parse_value n s)
   \<and> (\<forall>s. 2 * length s + 1 \<le> n \<longrightarrow> parse_elements (Suc n) s = parse_elements n s)
   \<and> (\<forall>s. 2 * length s + 1 \<le> n \<longrightarrow> parse_members (Suc n) s = parse_members n s)"
proof (induction n)
  case 0
  show ?case by simp
next
  case (Suc n)
  then have IHv: "\<And>s. 2 * length s \<le> n \<Longrightarrow> parse_value (Suc n) s = parse_value n s"
    and IHe: "\<And>s. 2 * length s + 1 \<le> n \<Longrightarrow> parse_elements (Suc n) s = parse_elements n s"
    and IHm: "\<And>s. 2 * length s + 1 \<le> n \<Longrightarrow> parse_members (Suc n) s = parse_members n s"
    by blast+
  have v: "parse_value (Suc (Suc n)) s = parse_value (Suc n) s" if b: "2 * length s \<le> Suc n" for s
  proof (rule parse_value_Suc_cong)
    fix c cs d r assume s: "s = c # cs" and sk: "skip_ws cs = d # r"
    from skip_ws_length[of cs] sk s b have "2 * length (d # r) + 1 \<le> n" by simp
    from IHm[OF this] IHe[OF this]
    show "parse_members (Suc n) (d # r) = parse_members n (d # r)
          \<and> parse_elements (Suc n) (d # r) = parse_elements n (d # r)" by simp
  qed
  have e: "parse_elements (Suc (Suc n)) s = parse_elements (Suc n) s"
    if b: "2 * length s + 1 \<le> Suc n" for s
  proof (rule parse_elements_Suc_cong)
    from b show "parse_value (Suc n) s = parse_value n s" by (intro IHv) simp
  next
    fix v r d r' assume pv: "parse_value (Suc n) s = Some (v, r)" and sk: "skip_ws r = d # r'"
    from parse_value_shorter[OF pv] skip_ws_Cons_length[OF sk] skip_ws_length[of r'] b
    have "2 * length (skip_ws r') + 1 \<le> n" by simp
    from IHe[OF this] show "parse_elements (Suc n) (skip_ws r') = parse_elements n (skip_ws r')" .
  qed
  have m: "parse_members (Suc (Suc n)) s = parse_members (Suc n) s"
    if b: "2 * length s + 1 \<le> Suc n" for s
  proof (rule parse_members_Suc_cong)
    fix q s1 k s2 col s3
    assume s: "s = q # s1" and pk: "parse_string_body s1 = Some (k, s2)"
      and sk2: "skip_ws s2 = col # s3"
    from parse_string_body_shorter[OF pk] skip_ws_Cons_length[OF sk2] skip_ws_length[of s3] s b
    have l3: "2 * length (skip_ws s3) \<le> n" by simp
    from IHv[OF this] show "parse_value (Suc n) (skip_ws s3) = parse_value n (skip_ws s3)" .
    fix v s4 d s5
    assume pv: "parse_value (Suc n) (skip_ws s3) = Some (v, s4)" and sk4: "skip_ws s4 = d # s5"
    from parse_value_shorter[OF pv] skip_ws_Cons_length[OF sk4] skip_ws_length[of s5] l3
    have "2 * length (skip_ws s5) + 1 \<le> n" by simp
    from IHm[OF this] show "parse_members (Suc n) (skip_ws s5) = parse_members n (skip_ws s5)" .
  qed
  from v e m show ?case by blast
qed

lemma parse_value_fuel:
  "2 * length s \<le> n \<Longrightarrow> parse_value (n + k) s = parse_value n s"
proof (induction k)
  case 0 show ?case by simp
next
  case (Suc k)
  from Suc.prems have "2 * length s \<le> n + k" by simp
  with fuel_aux[of "n + k"] have "parse_value (Suc (n + k)) s = parse_value (n + k) s" by blast
  with Suc show ?case by simp
qed

text \<open>The fuel that \<open>JSON_parse\<close> passes is enough: more fuel gives the same result.\<close>

lemma JSON_parse_fuel:
  assumes "2 * length s + 2 \<le> n"
  shows "JSON_parse s =
           (case parse_value n (skip_ws s) of
              None \<Rightarrow> Inl SyntaxError
            | Some (v, r) \<Rightarrow> if skip_ws r = [] then Inr v else Inl SyntaxError)"
proof -
  from assms obtain k where n: "n = (2 * length s + 2) + k" by (metis le_Suc_ex)
  have "2 * length (skip_ws s) \<le> 2 * length s + 2" using skip_ws_length[of s] by simp
  from parse_value_fuel[OF this, of k] n
  have "parse_value n (skip_ws s) = parse_value (2 * length s + 2) (skip_ws s)" by simp
  then show ?thesis by (simp add: JSON_parse_def)
qed

subsection \<open>Worker output parsing\<close>

lemma split_nl_nonempty: "split_nl s \<noteq> []"
  by (induction s) (auto split: list.splits)















subsection \<open>The registry invariant\<close>

lemma set_update_subset: "set (AList.update k v al) \<subseteq> insert (k, v) (set al)"
  by (induction al) auto

lemma set_delete_conv: "set (AList.delete k al) = {p \<in> set al. fst p \<noteq> k}"
  by (induction al) auto

lemma registry_ok_new: "registry_ok (new_manager c)"
  by (simp add: registry_ok_def new_manager_def)

lemma registry_okI:
  assumes "\<And>k r. (k, r) \<in> set (activeProcesses m) \<Longrightarrow>
             r < length (tasks m) \<and> proc_id (tasks m ! r) = k \<and> phase (tasks m ! r) = Supervising"
    and "\<And>i. i < length (tasks m) \<Longrightarrow> \<not> is_settled (phase (tasks m ! i)) \<Longrightarrow> endTime (tasks m ! i) = None"
  shows "registry_ok m"
  unfolding registry_ok_def using assms by (auto simp: in_set_conv_nth)

lemma registry_okD1:
  "registry_ok m \<Longrightarrow> (k, r) \<in> set (activeProcesses m) \<Longrightarrow>
     r < length (tasks m) \<and> proc_id (tasks m ! r) = k \<and> phase (tasks m ! r) = Supervising"
  unfolding registry_ok_def by auto

lemma registry_okD2:
  "registry_ok m \<Longrightarrow> i < length (tasks m) \<Longrightarrow> \<not> is_settled (phase (tasks m ! i)) \<Longrightarrow>
     endTime (tasks m ! i) = None"
  unfolding registry_ok_def by auto

text \<open>
  A change of one task that keeps its id, with no new registry entry, where the end time
  is only set on settling and the phase only changes if the task is not registered.
\<close>

lemma registry_ok_update_task:
  assumes ok: "registry_ok m" and i: "i < length (tasks m)"
    and t: "tasks m' = (tasks m)[i := t']" "proc_id t' = proc_id (tasks m ! i)"
    and e: "is_settled (phase t') \<or> (endTime t' = None)"
    and reg: "set (activeProcesses m') \<subseteq> set (activeProcesses m)"
    and ph: "phase t' = phase (tasks m ! i) \<or> (\<forall>k. (k, i) \<notin> set (activeProcesses m'))"
  shows "registry_ok m'"
proof (rule registry_okI)
  fix k r assume a: "(k, r) \<in> set (activeProcesses m')"
  with reg have "(k, r) \<in> set (activeProcesses m)" by blast
  from registry_okD1[OF ok this] i t ph a
  show "r < length (tasks m') \<and> proc_id (tasks m' ! r) = k \<and> phase (tasks m' ! r) = Supervising"
    by (cases "r = i") auto
next
  fix j assume j: "j < length (tasks m')" "\<not> is_settled (phase (tasks m' ! j))"
  show "endTime (tasks m' ! j) = None"
  proof (cases "j = i")
    case True
    with j t i e show ?thesis by auto
  next
    case False
    with j t have "j < length (tasks m)" "\<not> is_settled (phase (tasks m ! j))" by auto
    from registry_okD2[OF ok this] False t show ?thesis by simp
  qed
qed

lemma registry_ok_admit:
  assumes ok: "registry_ok m" and i: "i < length (tasks m)" and w: "phase (tasks m ! i) = Waiting"
  shows "registry_ok (admit i m)"
proof -
  have e: "endTime (tasks m ! i) = None" using registry_okD2[OF ok i] w by simp
  have notin: "(k, i) \<notin> set (activeProcesses m)" for k
    using registry_okD1[OF ok, of k i] w by auto
  show ?thesis
  proof (cases "prep (tasks m ! i)")
    case PrepOk
    with e notin show ?thesis
      by (intro registry_ok_update_task[OF ok i, where
            t' = "(tasks m ! i)\<lparr>startTime := clock m, status := Starting, phase := Spawning\<rparr>"])
         (simp_all add: admit_def)
  next
    case (InstructionsThrow x)
    with e notin show ?thesis
      by (intro registry_ok_update_task[OF ok i, where
            t' = "(tasks m ! i)\<lparr>startTime := clock m, status := Starting, phase := Rejected x\<rparr>"])
         (simp_all add: admit_def)
  next
    case (SpawnRejects x)
    with e notin show ?thesis
      by (intro registry_ok_update_task[OF ok i, where
            t' = "(tasks m ! i)\<lparr>startTime := clock m, status := Starting, phase := Spawning\<rparr>"])
         (simp_all add: admit_def)
  qed
qed

lemma registry_ok_fail_task:
  assumes ok: "registry_ok m" and i: "i < length (tasks m)"
  shows "registry_ok (fail_task i x m)"
proof -
  have "(k, i) \<notin> set (AList.delete (proc_id (tasks m ! i)) (activeProcesses m))" for k
    using registry_okD1[OF ok, of k i] by (auto simp: set_delete_conv)
  then show ?thesis
    by (intro registry_ok_update_task[OF ok i, where
          t' = "(tasks m ! i)\<lparr>status := Failed, error := Some (message x), phase := Rejected x\<rparr>"])
       (auto simp: fail_task_def Let_def set_delete_conv)
qed

lemma registry_ok_complete:
  assumes ok: "registry_ok m" and i: "i < length (tasks m)"
  shows "registry_ok (complete i result m)"
proof -
  have "(k, i) \<notin> set (AList.delete (proc_id (tasks m ! i)) (activeProcesses m))" for k
    using registry_okD1[OF ok, of k i] by (auto simp: set_delete_conv)
  then show ?thesis
    by (intro registry_ok_update_task[OF ok i, where
          t' = "(tasks m ! i)\<lparr>endTime := Some (clock m), status := status_of_result result,
                  results := Some result, phase := Fulfilled result\<rparr>"])
       (auto simp: complete_def Let_def set_delete_conv)
qed

lemma registry_ok_kill:
  assumes ok: "registry_ok m" and i: "i < length (tasks m)"
    and s: "phase (tasks m ! i) = Supervising"
  shows "registry_ok (kill i m)"
proof -
  have "endTime (tasks m ! i) = None" using registry_okD2[OF ok i] s by simp
  then show ?thesis
    by (intro registry_ok_update_task[OF ok i, where
          t' = "(tasks m ! i)\<lparr>signals := signals (tasks m ! i) @ [SIGTERM]\<rparr>"])
       (auto simp: kill_def)
qed

lemma registry_ok_register:
  assumes ok: "registry_ok m" and i: "i < length (tasks m)"
    and ph: "phase (tasks m ! i) = Spawning"
  shows "registry_ok (register i m)"
proof (rule registry_okI)
  fix k r assume "(k, r) \<in> set (activeProcesses (register i m))"
  then have "(k, r) = (proc_id (tasks m ! i), i) \<or> (k, r) \<in> set (activeProcesses m)"
    using set_update_subset[of "proc_id (tasks m ! i)" i "activeProcesses m"]
    by (auto simp: register_def Let_def)
  then show "r < length (tasks (register i m)) \<and> proc_id (tasks (register i m) ! r) = k
        \<and> phase (tasks (register i m) ! r) = Supervising"
  proof
    assume "(k, r) = (proc_id (tasks m ! i), i)"
    with i show ?thesis by (simp add: register_def Let_def)
  next
    assume "(k, r) \<in> set (activeProcesses m)"
    from registry_okD1[OF ok this] i show ?thesis
      by (cases "r = i") (auto simp: register_def Let_def)
  qed
next
  fix j assume j: "j < length (tasks (register i m))"
    "\<not> is_settled (phase (tasks (register i m) ! j))"
  have e: "endTime (tasks m ! i) = None"
    using registry_okD2[OF ok i] ph by simp
  show "endTime (tasks (register i m) ! j) = None"
  proof (cases "j = i")
    case True with i e show ?thesis by (simp add: register_def Let_def)
  next
    case False
    with j have "j < length (tasks m)" "\<not> is_settled (phase (tasks m ! j))"
      by (auto simp: register_def Let_def)
    from registry_okD2[OF ok this] False show ?thesis by (simp add: register_def Let_def)
  qed
qed

lemma registry_ok_append:
  assumes ok: "registry_ok m"
  shows "registry_ok (m\<lparr>tasks := tasks m @ [new_task wt p]\<rparr>)"
    (is "registry_ok ?m'")
proof (rule registry_okI)
  fix k r assume "(k, r) \<in> set (activeProcesses ?m')"
  then have "(k, r) \<in> set (activeProcesses m)" by simp
  from registry_okD1[OF ok this]
  show "r < length (tasks ?m') \<and> proc_id (tasks ?m' ! r) = k \<and> phase (tasks ?m' ! r) = Supervising"
    by (simp add: nth_append)
next
  fix j assume j: "j < length (tasks ?m')" "\<not> is_settled (phase (tasks ?m' ! j))"
  show "endTime (tasks ?m' ! j) = None"
  proof (cases "j < length (tasks m)")
    case True
    with j have "\<not> is_settled (phase (tasks m ! j))" by (simp add: nth_append)
    from registry_okD2[OF ok True this] True show ?thesis by (simp add: nth_append)
  next
    case False
    with j have "j = length (tasks m)" by simp
    then show ?thesis by (simp add: new_task_def)
  qed
qed

lemma registry_ok_step:
  assumes "registry_ok m"
  shows "registry_ok (step e m)"
proof (cases e)
  case (Call wt p)
  have "registry_ok (admit (length (tasks m)) (m\<lparr>tasks := tasks m @ [new_task wt p]\<rparr>))"
    by (rule registry_ok_admit[OF registry_ok_append[OF assms]]) (simp_all add: new_task_def)
  with Call registry_ok_append[OF assms] show ?thesis by (simp add: Let_def)
next
  case (Poll i)
  with assms show ?thesis by (simp add: at_phase_def registry_ok_admit)
next
  case (Resume i)
  with assms show ?thesis
    by (auto simp: at_phase_def registry_ok_register registry_ok_fail_task split: prep.splits)
next
  case (Close i code out err)
  with assms show ?thesis
    by (auto simp: at_phase_def registry_ok_complete registry_ok_fail_task split: sum.splits)
next
  case (ChildError i err)
  with assms show ?thesis by (simp add: at_phase_def registry_ok_fail_task)
next
  case (Timeout i)
  have "registry_ok (fail_task i x (kill i m))"
    if "i < length (tasks m)" "phase (tasks m ! i) = Supervising" for x
    by (rule registry_ok_fail_task[OF registry_ok_kill[OF assms that]]) (simp add: kill_def that)
  with Timeout assms show ?thesis by (simp add: at_phase_def)
next
  case (Tick d)
  with assms show ?thesis by (simp add: registry_ok_def)
qed

lemma registry_ok_exec: "registry_ok m \<Longrightarrow> registry_ok (exec es m)"
  unfolding exec_def by (induction es arbitrary: m) (simp_all add: registry_ok_step)

lemma registry_ok_await:
  "registry_ok m \<Longrightarrow> await_all_settled ids es m = Some m' \<Longrightarrow> registry_ok m'"
proof (induction es arbitrary: m)
  case Nil
  then show ?case by (simp split: if_splits)
next
  case (Cons e es)
  show ?case
  proof (cases "all_settled ids m")
    case True
    with Cons.prems show ?thesis by simp
  next
    case False
    with Cons.prems have "await_all_settled ids es (step e m) = Some m'" by simp
    from Cons.IH[OF registry_ok_step[OF Cons.prems(1)] this] show ?thesis .
  qed
qed

lemma find_Some_in_set: "find P xs = Some x \<Longrightarrow> x \<in> set xs"
  by (induction xs) (auto split: if_splits)

lemma calculateProcessDuration_None:
  assumes "registry_ok m"
  shows "calculateProcessDuration m processId = None"
proof (cases "find (\<lambda>p. str_includes (proc_id p) processId)
                (map (\<lambda>(k, r). tasks m ! r) (activeProcesses m))")
  case None
  then show ?thesis by (simp add: calculateProcessDuration_def)
next
  case (Some p)
  then have "p \<in> set (map (\<lambda>(k, r). tasks m ! r) (activeProcesses m))"
    by (rule find_Some_in_set)
  then obtain k r where kr: "(k, r) \<in> set (activeProcesses m)" and p: "p = tasks m ! r" by auto
  from registry_okD1[OF assms kr] have "r < length (tasks m)" "phase (tasks m ! r) = Supervising"
    by simp_all
  with registry_okD2[OF assms, of r] p have "endTime p = None" by simp
  with Some show ?thesis by (simp add: calculateProcessDuration_def)
qed

subsection \<open>Sessions and the pool\<close>

lemma await_all_settled_settled:
  "await_all_settled ids es m = Some m' \<Longrightarrow> all_settled ids m'"
  by (induction es arbitrary: m) (auto split: if_splits)

text \<open>
  C10. Whatever has happened to the manager before (any events after the constructor), and
  whatever the environment and the schedule of the session are: if \<open>startVariationGeneration\<close>
  returns a session, the \<open>duration\<close> of every entry of \<open>session.results\<close> is \<open>null\<close>. At the
  time the durations are computed \<open>calculateProcessDuration\<close> returns \<open>null\<close> for every
  argument: every call that has settled has been deleted from \<open>activeProcesses\<close> by its
  \<open>finally\<close> block, and an entry that is still there (a call of another session) has no
  \<open>endTime\<close>.
\<close>

theorem session_durations_null:
  assumes run: "startVariationGeneration env schedule variationSpecs (exec history (new_manager capacity))
                  = (Returned entries report, m')"
  shows "(\<forall>r \<in> set entries. se_duration r = None)
         \<and> (\<forall>processId. calculateProcessDuration m' processId = None)
         \<and> (\<forall>(k, r) \<in> set (activeProcesses m'). \<not> is_settled (phase (tasks m' ! r)))"
proof -
  let ?m = "exec history (new_manager capacity)"
  have ok: "registry_ok ?m" by (rule registry_ok_exec[OF registry_ok_new])
  from run obtain worktrees where
    wts: "promise_all (map (createVariationWorktree env) variationSpecs) = Inr worktrees"
    by (auto simp: startVariationGeneration_def split: sum.splits)
  let ?ids = "[length (tasks ?m) ..< length (tasks ?m) + length worktrees]"
  let ?m2 = "exec (map Resume ?ids) (exec (map (\<lambda>wt. Call wt (prep_of env wt)) worktrees) ?m)"
  from run wts have aw: "await_all_settled ?ids schedule ?m2 = Some m'"
    and en: "entries = map (\<lambda>(spec, wt, i). session_entry_of m' spec wt i)
                         (zip variationSpecs (zip worktrees ?ids))"
    by (auto simp: startVariationGeneration_def Let_def split: option.splits)
  have ok2: "registry_ok ?m2" by (intro registry_ok_exec ok)
  have ok': "registry_ok m'" by (rule registry_ok_await[OF ok2 aw])
  have d: "calculateProcessDuration m' processId = None" for processId
    by (rule calculateProcessDuration_None[OF ok'])
  have "\<forall>r \<in> set entries. se_duration r = None"
    unfolding en by (auto simp: session_entry_of_def d)
  moreover have "\<forall>(k, r) \<in> set (activeProcesses m'). \<not> is_settled (phase (tasks m' ! r))"
    using registry_okD1[OF ok'] by auto
  ultimately show ?thesis using d by blast
qed

theorem session_durations_null_witness:
  "\<exists>entries report m'.
     startVariationGeneration env_all_succeed
         [Tick 5, Close 0 (Some 0) ''[1]'' [], Tick 3, Timeout 1]
         [\<lparr> spec_name = ''a'' \<rparr>, \<lparr> spec_name = ''b'' \<rparr>] (new_manager 3)
       = (Returned entries report, m')
     \<and> map se_duration entries = [None, None]"
proof -
  let ?run = "startVariationGeneration env_all_succeed
         [Tick 5, Close 0 (Some 0) ''[1]'' [], Tick 3, Timeout 1]
         [\<lparr> spec_name = ''a'' \<rparr>, \<lparr> spec_name = ''b'' \<rparr>] (new_manager 3)"
  have ev: "case fst ?run of Returned es r \<Rightarrow> length es = 2 | _ \<Rightarrow> False"
    by code_simp
  obtain out m' where eq: "?run = (out, m')" by (cases ?run)
  with ev obtain es r where out: "out = Returned es r" and len: "length es = 2"
    by (cases out) auto
  have start: "exec [] (new_manager 3) = new_manager 3" by (simp add: exec_def)
  from session_durations_null [of env_all_succeed _ _ "[]" 3 es r m'] eq out start
  have none: "\<forall>x \<in> set es. se_duration x = None" by simp
  from len obtain a b where "es = [a, b]"
    by (auto simp: length_Suc_conv numeral_2_eq_2)
  with none have "map se_duration es = [None, None]" by simp
  with eq out show ?thesis by simp
qed

lemma exec_append: "exec (xs @ ys) m = exec ys (exec xs m)"
  by (simp add: exec_def)

lemma exec_Cons: "exec (e # es) m = exec es (step e m)"
  by (simp add: exec_def)

text \<open>
  A batch of calls made in one go on a manager whose map is empty: every call passes the
  admission check, whatever the capacity (if it is not 0) and the size of the batch.
\<close>

lemma batch_all_admitted:
  assumes "activeProcesses m = []" "0 < maxConcurrentProcesses m"
  shows "exec (map (\<lambda>wt. Call wt PrepOk) wts) m =
           m \<lparr> tasks := tasks m @ map (\<lambda>wt. (new_task wt PrepOk)
                     \<lparr> startTime := clock m, status := Starting, phase := Spawning \<rparr>) wts \<rparr>"
  using assms
proof (induction wts arbitrary: m)
  case Nil
  show ?case by (simp add: exec_def)
next
  case (Cons wt wts)
  let ?t = "(new_task wt PrepOk) \<lparr> startTime := clock m, status := Starting, phase := Spawning \<rparr>"
  let ?m1 = "m \<lparr> tasks := tasks m @ [?t] \<rparr>"
  have s: "step (Call wt PrepOk) m = ?m1"
    using Cons.prems by (simp add: Let_def admit_def new_task_def)
  have "exec (map (\<lambda>wt. Call wt PrepOk) wts) ?m1 =
          ?m1 \<lparr> tasks := tasks ?m1 @ map (\<lambda>wt. (new_task wt PrepOk)
                     \<lparr> startTime := clock ?m1, status := Starting, phase := Spawning \<rparr>) wts \<rparr>"
    using Cons.prems by (intro Cons.IH) simp_all
  then show ?case by (simp add: exec_Cons s del: step.simps)
qed

lemma resumed_prefix_running:
  assumes n: "length (tasks m) = n"
    and sp: "\<forall>i < n. phase (tasks m ! i) = Spawning \<and> prep (tasks m ! i) = PrepOk"
    and j: "j \<le> n"
  shows "length (tasks (exec (map Resume [0..<j]) m)) = n
         \<and> (\<forall>i < j. status (tasks (exec (map Resume [0..<j]) m) ! i) = Running)
         \<and> (\<forall>i. j \<le> i \<and> i < n \<longrightarrow> tasks (exec (map Resume [0..<j]) m) ! i = tasks m ! i)"
  using j
proof (induction j)
  case 0
  show ?case using n by (simp add: exec_def)
next
  case (Suc j)
  let ?m = "exec (map Resume [0..<j]) m"
  from Suc have len: "length (tasks ?m) = n"
    and run: "\<forall>i < j. status (tasks ?m ! i) = Running"
    and rest: "\<forall>i. j \<le> i \<and> i < n \<longrightarrow> tasks ?m ! i = tasks m ! i"
    by simp_all
  from Suc.prems have jn: "j < n" by simp
  with rest sp have ph: "phase (tasks ?m ! j) = Spawning" "prep (tasks ?m ! j) = PrepOk"
    by simp_all
  have e: "exec (map Resume [0..<Suc j]) m = register j ?m"
    using ph jn len by (simp add: exec_append exec_Cons at_phase_def exec_def)
  have t: "tasks (register j ?m) = (tasks ?m)[j := (tasks ?m ! j)\<lparr>status := Running, phase := Supervising\<rparr>]"
    by (simp add: register_def Let_def)
  show ?case
    unfolding e t using len run rest jn
    by (auto simp: nth_list_update less_Suc_eq)
qed

lemma batch_all_running:
  assumes "0 < capacity"
  shows "running (exec (map Resume [0..<length wts])
                    (exec (map (\<lambda>wt. Call wt PrepOk) wts) (new_manager capacity)))
         = length wts"
proof -
  let ?m1 = "exec (map (\<lambda>wt. Call wt PrepOk) wts) (new_manager capacity)"
  let ?m2 = "exec (map Resume [0..<length wts]) ?m1"
  have m1: "?m1 = (new_manager capacity)
      \<lparr> tasks := tasks (new_manager capacity) @ map (\<lambda>wt. (new_task wt PrepOk)
           \<lparr> startTime := clock (new_manager capacity), status := Starting, phase := Spawning \<rparr>) wts \<rparr>"
    using assms by (intro batch_all_admitted) (simp_all add: new_manager_def)
  have len: "length (tasks ?m1) = length wts" unfolding m1 by (simp add: new_manager_def)
  have sp: "\<forall>i < length wts. phase (tasks ?m1 ! i) = Spawning \<and> prep (tasks ?m1 ! i) = PrepOk"
    unfolding m1 by (simp add: new_manager_def new_task_def)
  from resumed_prefix_running[OF len sp, of "length wts"]
  have l2: "length (tasks ?m2) = length wts"
    and r: "\<forall>i < length wts. status (tasks ?m2 ! i) = Running"
    by simp_all
  then have "\<forall>t \<in> set (tasks ?m2). status t = Running"
    by (auto simp: in_set_conv_nth)
  then have "filter (\<lambda>t. status t = Running) (tasks ?m2) = tasks ?m2"
    by (simp add: filter_id_conv)
  with l2 show ?thesis by (simp add: running_def)
qed

text \<open>
  C1, evaluated on the code. Four variants are submitted to a manager of capacity 3. Each
  of the four calls of \<open>startClaudeProcess\<close> runs its admission check (line 133) while
  \<open>activeProcesses\<close> is still empty, because a call is entered into the map only after the
  awaited spawn (line 161), and all four calls are made before any of them resumes. When
  the session waits at \<open>Promise.allSettled\<close>, four tasks have status \<open>running\<close>, and
  \<open>getStatus\<close> reports four active processes against a maximum of three. (Lemma
  \<open>batch_all_running\<close> above: a batch of any size on a new manager of any capacity but 0 runs
  all at once.)
\<close>

theorem capacity_exceeded:
  "fst over_capacity_session = Pending
   \<and> running (snd over_capacity_session) = 4
   \<and> st_activeProcesses (getStatus (snd over_capacity_session)) = 4
   \<and> st_maxConcurrentProcesses (getStatus (snd over_capacity_session)) = 3
   \<and> active (st_stats (getStatus (snd over_capacity_session))) = 4"
  by code_simp

subsection \<open>Frame and progress lemmas\<close>

lemma admit_leaves_waiting:
  "i < length (tasks m) \<Longrightarrow> phase (tasks (admit i m) ! i) \<noteq> Waiting"
  by (simp add: admit_def Let_def split: prep.splits)

lemma admit_frame:
  "j \<noteq> i \<Longrightarrow> tasks (admit i m) ! j = tasks m ! j"
  by (simp add: admit_def Let_def split: prep.splits)

lemma admit_length: "length (tasks (admit i m)) = length (tasks m)"
  by (simp add: admit_def Let_def split: prep.splits)

lemma admit_registry:
  "activeProcesses (admit i m) = activeProcesses m
   \<and> maxConcurrentProcesses (admit i m) = maxConcurrentProcesses m
   \<and> processStats (admit i m) = processStats m"
  by (simp add: admit_def Let_def split: prep.splits)

lemma register_frame:
  "j \<noteq> i \<Longrightarrow> tasks (register i m) ! j = tasks m ! j"
  by (simp add: register_def Let_def)

lemma fail_task_frame:
  "j \<noteq> i \<Longrightarrow> tasks (fail_task i x m) ! j = tasks m ! j"
  by (simp add: fail_task_def Let_def)

lemma complete_frame:
  "j \<noteq> i \<Longrightarrow> tasks (complete i result m) ! j = tasks m ! j"
  by (simp add: complete_def Let_def)

lemma kill_frame:
  "j \<noteq> i \<Longrightarrow> tasks (kill i m) ! j = tasks m ! j"
  by (simp add: kill_def)

lemma segment_lengths:
  "length (tasks (register i m)) = length (tasks m)"
  "length (tasks (fail_task i x m)) = length (tasks m)"
  "length (tasks (complete i result m)) = length (tasks m)"
  "length (tasks (kill i m)) = length (tasks m)"
  by (simp_all add: register_def fail_task_def complete_def kill_def Let_def)

text \<open>An event aimed at call \<open>i\<close> leaves every other call as it was.\<close>

lemma step_frame:
  assumes "j \<noteq> i" "e \<in> {Poll i, Resume i, Close i code out err, ChildError i x, Timeout i}"
  shows "tasks (step e m) ! j = tasks m ! j \<and> length (tasks (step e m)) = length (tasks m)"
proof -
  have k: "tasks (fail_task i y (kill i m)) ! j = tasks m ! j" for y
    using assms(1) by (simp add: fail_task_frame kill_frame)
  from assms(2) consider "e = Poll i" | "e = Resume i" | "e = Close i code out err"
    | "e = ChildError i x" | "e = Timeout i" by auto
  then show ?thesis
  proof cases
    case 1 with assms(1) show ?thesis by (simp add: admit_frame admit_length)
  next
    case 2 with assms(1) show ?thesis
      by (simp add: register_frame fail_task_frame segment_lengths split: prep.splits)
  next
    case 3 with assms(1) show ?thesis
      by (simp add: complete_frame fail_task_frame segment_lengths split: sum.splits)
  next
    case 4 with assms(1) show ?thesis by (simp add: fail_task_frame segment_lengths)
  next
    case 5 with k show ?thesis by (simp add: segment_lengths)
  qed
qed

lemma waiting_stays:
  assumes w: "at_phase i Waiting m" and ne: "e \<noteq> Poll i"
  shows "at_phase i Waiting (step e m)"
proof -
  from w have i: "i < length (tasks m)" and ph: "phase (tasks m ! i) = Waiting"
    by (simp_all add: at_phase_def)
  have other: "at_phase i Waiting (step e' m)"
    if "e' \<in> {Poll j, Resume j, Close j code out err, ChildError j x, Timeout j}" "j \<noteq> i"
    for e' j code out err x
    using step_frame[OF that(2)[symmetric] that(1), of m] i ph by (simp add: at_phase_def)
  have same: "at_phase i Waiting (step e' m)"
    if "e' \<in> {Resume i, Close i code out err, ChildError i x, Timeout i}"
    for e' code out err x
    using that w ph by (auto simp: at_phase_def)
  show ?thesis
  proof (cases e)
    case (Call wt p)
    let ?m' = "m\<lparr>tasks := tasks m @ [new_task wt p]\<rparr>"
    have a: "at_phase i Waiting ?m'" using i ph by (simp add: at_phase_def nth_append)
    have b: "at_phase i Waiting (admit (length (tasks m)) ?m')"
      using i ph by (simp add: at_phase_def admit_frame admit_length nth_append)
    from Call a b show ?thesis by (simp add: Let_def)
  next
    case (Poll j)
    with ne have "j \<noteq> i" by simp
    with Poll other[of e j] show ?thesis by simp
  next
    case (Resume j)
    then show ?thesis using other[of e j] same[of e] by (cases "j = i") simp_all
  next
    case (Close j code out err)
    then show ?thesis using other[of e j code out err] same[of e code out err]
      by (cases "j = i") simp_all
  next
    case (ChildError j x)
    then show ?thesis using other[of e j _ _ _ x] same[of e _ _ _ x]
      by (cases "j = i") simp_all
  next
    case (Timeout j)
    then show ?thesis using other[of e j] same[of e] by (cases "j = i") simp_all
  next
    case (Tick d)
    with w show ?thesis by (simp add: at_phase_def)
  qed
qed


lemma promise_all_rejects: "\<exists>p \<in> set ps. isl p \<Longrightarrow> \<exists>e. promise_all ps = Inl e"
proof (induction ps)
  case Nil then show ?case by simp
next
  case (Cons p ps)
  then show ?case by (cases p) (auto split: sum.splits)
qed

lemma promise_all_fulfils: "promise_all ps = Inr vs \<Longrightarrow> \<forall>p \<in> set ps. \<not> isl p"
  using promise_all_rejects[of ps] by (metis sum.distinct(1))


lemma createUIVariations_events:
  "snd (createUIVariations env (v # vs)) =
     createWorktree_launch env v # createWorktree_completion env v # snd (createUIVariations env vs)"
  by (simp add: Let_def case_prod_unfold)

lemma createUIVariations_serialized: "serialized (snd (createUIVariations env vs))"
  unfolding serialized_def
proof (induction vs)
  case Nil show ?case by simp
next
  case (Cons v vs)
  then show ?case
    unfolding createUIVariations_events
    by (simp add: createWorktree_launch_def createWorktree_completion_def)
qed



text \<open>
  C2, as the code has it. When the deadline timer of a call fires while the call is
  suspended in \<open>waitForProcessCompletion\<close>: \<open>kill()\<close> is called once on that call's child
  process, with the default signal; the call's promise is rejected with
  \<open>Process timed out: <id>\<close>, its task gets status \<open>failed\<close> (the only failure status there
  is) and that message as error; its entry is deleted from \<open>activeProcesses\<close>, \<open>active\<close> goes
  down by one and \<open>failed\<close> up by one. Every other call is left exactly as it was. A call that
  waits for a slot is still waiting afterwards: it is admitted by the next run of its own
  \<open>checkSlot\<close> timer, provided the map then holds fewer entries than the capacity.
\<close>

theorem timeout_fails_own_task_only:
  assumes sup: "at_phase i Supervising m"
  shows "tasks (step (Timeout i) m) =
           (tasks m)[i := (tasks m ! i)
              \<lparr> signals := signals (tasks m ! i) @ [SIGTERM], status := Failed,
                error := Some (''Process timed out: '' @ proc_id (tasks m ! i)),
                phase := Rejected (Error (''Process timed out: '' @ proc_id (tasks m ! i))) \<rparr>]
         \<and> activeProcesses (step (Timeout i) m)
             = AList.delete (proc_id (tasks m ! i)) (activeProcesses m)
         \<and> processStats (step (Timeout i) m)
             = (processStats m) \<lparr> active := active (processStats m) - 1,
                                  failed := failed (processStats m) + 1 \<rparr>
         \<and> (\<forall>j. j \<noteq> i \<longrightarrow> tasks (step (Timeout i) m) ! j = tasks m ! j)
         \<and> (\<forall>j. at_phase j Waiting m
                \<longrightarrow> at_phase j Waiting (step (Timeout i) m)
                    \<and> (length (activeProcesses (step (Timeout i) m)) < maxConcurrentProcesses m
                        \<longrightarrow> \<not> at_phase j Waiting (step (Poll j) (step (Timeout i) m))))"
proof -
  let ?m' = "step (Timeout i) m"
  from sup have i: "i < length (tasks m)" and ph: "phase (tasks m ! i) = Supervising"
    by (simp_all add: at_phase_def)
  have t: "tasks ?m' =
           (tasks m)[i := (tasks m ! i)
              \<lparr> signals := signals (tasks m ! i) @ [SIGTERM], status := Failed,
                error := Some (''Process timed out: '' @ proc_id (tasks m ! i)),
                phase := Rejected (Error (''Process timed out: '' @ proc_id (tasks m ! i))) \<rparr>]"
    using sup i by (simp add: fail_task_def kill_def Let_def)
  have r: "activeProcesses ?m' = AList.delete (proc_id (tasks m ! i)) (activeProcesses m)"
    using sup i by (simp add: fail_task_def kill_def Let_def)
  have s: "processStats ?m' = (processStats m) \<lparr> active := active (processStats m) - 1,
                                  failed := failed (processStats m) + 1 \<rparr>"
    using sup by (simp add: fail_task_def kill_def Let_def)
  have c: "maxConcurrentProcesses ?m' = maxConcurrentProcesses m"
    using sup by (simp add: fail_task_def kill_def Let_def)
  have f: "tasks ?m' ! j = tasks m ! j" if "j \<noteq> i" for j
    unfolding t using that by simp
  have w: "at_phase j Waiting ?m'
           \<and> (length (activeProcesses ?m') < maxConcurrentProcesses m
                \<longrightarrow> \<not> at_phase j Waiting (step (Poll j) ?m'))"
    if "at_phase j Waiting m" for j
  proof -
    from that ph have ne: "j \<noteq> i" and j: "j < length (tasks m)"
      "phase (tasks m ! j) = Waiting"
      by (auto simp: at_phase_def)
    have len: "length (tasks ?m') = length (tasks m)" unfolding t by simp
    have stay: "at_phase j Waiting ?m'"
      using j f[OF ne] len by (simp add: at_phase_def)
    have "\<not> at_phase j Waiting (step (Poll j) ?m')"
      if "length (activeProcesses ?m') < maxConcurrentProcesses m"
    proof -
      from that stay c have "step (Poll j) ?m' = admit j ?m'" by simp
      moreover have "phase (tasks (admit j ?m') ! j) \<noteq> Waiting"
        using j len by (intro admit_leaves_waiting) simp
      ultimately show ?thesis by (simp add: at_phase_def)
    qed
    with stay show ?thesis by blast
  qed
  from t r s f w show ?thesis by blast
qed

theorem timeout_fails_own_task_only_witness:
  "activeProcesses (step (Timeout 0) before_timeout) = []
   \<and> status (tasks (step (Timeout 0) before_timeout) ! 0) = Failed
   \<and> tasks (step (Timeout 0) before_timeout) ! 1 = tasks before_timeout ! 1
   \<and> at_phase 1 Waiting (step (Timeout 0) before_timeout)
   \<and> \<not> at_phase 1 Waiting (step (Poll 1) (step (Timeout 0) before_timeout))"
proof -
  have h: "at_phase 0 Supervising before_timeout" by code_simp
  have w: "at_phase 1 Waiting before_timeout" by code_simp
  have d: "AList.delete (proc_id (tasks before_timeout ! 0)) (activeProcesses before_timeout) = []"
    by code_simp
  have c: "maxConcurrentProcesses before_timeout = 1" by code_simp
  have l: "0 < length (tasks before_timeout)" by code_simp
  note th = timeout_fails_own_task_only [OF h]
  from th d have a: "activeProcesses (step (Timeout 0) before_timeout) = []"
    by (simp del: step.simps)
  from th l have b: "status (tasks (step (Timeout 0) before_timeout) ! 0) = Failed"
    by (simp del: step.simps)
  from th have e: "tasks (step (Timeout 0) before_timeout) ! 1 = tasks before_timeout ! 1"
    by (metis zero_neq_one)
  from th w have f: "at_phase 1 Waiting (step (Timeout 0) before_timeout)
      \<and> (length (activeProcesses (step (Timeout 0) before_timeout))
             < maxConcurrentProcesses before_timeout
           \<longrightarrow> \<not> at_phase 1 Waiting (step (Poll 1) (step (Timeout 0) before_timeout)))"
    by blast
  from f a c have g: "\<not> at_phase 1 Waiting (step (Poll 1) (step (Timeout 0) before_timeout))"
    by (simp del: step.simps)
  from a b e f g show ?thesis by (simp del: step.simps)
qed

text \<open>
  C2 as stated fails. Capacity 1: call 0 runs, call 1 waits; the deadline of call 0 passes.
  Call 0 ends with status \<open>failed\<close> after one \<open>SIGTERM\<close> to its child, the map is empty, and
  call 1 has not been admitted to the free slot: it is still waiting for its timer.
\<close>

theorem timeout_counterexample:
  "status (tasks timeout_scenario ! 0) = Failed
   \<and> phase (tasks timeout_scenario ! 0) = Rejected (Error ''Process timed out: claude-a'')
   \<and> signals (tasks timeout_scenario ! 0) = [SIGTERM]
   \<and> activeProcesses timeout_scenario = []
   \<and> phase (tasks timeout_scenario ! 1) = Waiting"
  by code_simp

text \<open>
  C4, as the code has it. A call made while \<open>activeProcesses\<close> holds at least
  \<open>maxConcurrentProcesses\<close> entries waits: nothing but the new, waiting call is added to the
  state. A waiting call re-checks only when its own timer fires: the check leaves the state
  unchanged while the map is full, and admits the call as soon as the map has room, whether
  or not other calls have waited longer. No other event touches a waiting call: the end of
  a running task does not run the admission check.
\<close>

theorem admission_by_polling:
  "(maxConcurrentProcesses m \<le> length (activeProcesses m)
      \<longrightarrow> step (Call wt p) m = m \<lparr> tasks := tasks m @ [new_task wt p] \<rparr>
          \<and> at_phase (length (tasks m)) Waiting (step (Call wt p) m))
   \<and> (at_phase i Waiting m \<and> maxConcurrentProcesses m \<le> length (activeProcesses m)
      \<longrightarrow> step (Poll i) m = m)
   \<and> (at_phase i Waiting m \<and> length (activeProcesses m) < maxConcurrentProcesses m
      \<longrightarrow> step (Poll i) m = admit i m \<and> \<not> at_phase i Waiting (step (Poll i) m))
   \<and> (at_phase i Waiting m \<and> e \<noteq> Poll i \<longrightarrow> at_phase i Waiting (step e m))"
proof -
  have a: "step (Call wt p) m = m \<lparr> tasks := tasks m @ [new_task wt p] \<rparr>
          \<and> at_phase (length (tasks m)) Waiting (step (Call wt p) m)"
    if "maxConcurrentProcesses m \<le> length (activeProcesses m)"
    using that by (simp add: Let_def at_phase_def new_task_def)
  have b: "step (Poll i) m = m"
    if "at_phase i Waiting m \<and> maxConcurrentProcesses m \<le> length (activeProcesses m)"
    using that by simp
  have c: "step (Poll i) m = admit i m \<and> \<not> at_phase i Waiting (step (Poll i) m)"
    if "at_phase i Waiting m \<and> length (activeProcesses m) < maxConcurrentProcesses m"
  proof -
    from that have "step (Poll i) m = admit i m" by simp
    moreover from that have "phase (tasks (admit i m) ! i) \<noteq> Waiting"
      by (intro admit_leaves_waiting) (simp add: at_phase_def)
    ultimately show ?thesis by (simp add: at_phase_def)
  qed
  have d: "at_phase i Waiting (step e m)" if "at_phase i Waiting m \<and> e \<noteq> Poll i"
    using that waiting_stays by blast
  from a b c d show ?thesis by blast
qed

theorem admission_by_polling_witness:
  "step (Call (worktree_named ''a'') PrepOk) one_running
     = one_running \<lparr> tasks := tasks one_running @ [new_task (worktree_named ''a'') PrepOk] \<rparr>
   \<and> at_phase 1 Waiting
        (step (Close 0 (Some 0) [] []) (step (Call (worktree_named ''a'') PrepOk) one_running))
   \<and> \<not> at_phase 1 Waiting
        (step (Poll 1)
           (step (Close 0 (Some 0) [] []) (step (Call (worktree_named ''a'') PrepOk) one_running)))"
proof -
  let ?m1 = "step (Call (worktree_named ''a'') PrepOk) one_running"
  let ?m2 = "step (Close 0 (Some 0) [] []) ?m1"
  have full: "maxConcurrentProcesses one_running \<le> length (activeProcesses one_running)"
    by code_simp
  have len: "length (tasks one_running) = 1" by code_simp
  have room: "length (activeProcesses ?m2) < maxConcurrentProcesses ?m2" by code_simp
  have ne: "Close 0 (Some 0) [] [] \<noteq> Poll 1" by simp
  from admission_by_polling [of one_running "worktree_named ''a''" PrepOk] full
  have both: "?m1 = one_running \<lparr> tasks := tasks one_running @ [new_task (worktree_named ''a'') PrepOk] \<rparr>
              \<and> at_phase (length (tasks one_running)) Waiting ?m1"
    by blast
  then have a: "?m1 = one_running \<lparr> tasks := tasks one_running @ [new_task (worktree_named ''a'') PrepOk] \<rparr>"
    by (rule conjunct1)
  from both have w1: "at_phase 1 Waiting ?m1" unfolding len by (rule conjunct2)
  from admission_by_polling [of ?m1 _ _ 1 "Close 0 (Some 0) [] []"] w1 ne
  have w2: "at_phase 1 Waiting ?m2" by blast
  from admission_by_polling [of ?m2 _ _ 1] w2 room
  have "\<not> at_phase 1 Waiting (step (Poll 1) ?m2)" by blast
  with a w2 show ?thesis by (simp del: step.simps)
qed

text \<open>
  C4 as stated fails. Capacity 1 with call 0 running; call 1 is submitted before call 2
  and both wait. The child of call 0 closes between a poll of call 1 and the next poll of
  call 2: call 2, submitted later, gets the slot and runs, and call 1 still waits.
\<close>

theorem later_waiter_admitted_first:
  "phase (tasks polling_scenario ! 1) = Waiting
   \<and> phase (tasks polling_scenario ! 2) = Supervising
   \<and> status (tasks polling_scenario ! 2) = Running
   \<and> activeProcesses polling_scenario = [(''claude-b'', 2)]"
  by code_simp




text \<open>
  C3, as the code has it. \<open>createUIVariations\<close> provisions one variation after the other:
  in the repository events it causes, no command is launched while another runs.
  \<open>startVariationGeneration\<close> launches \<open>git worktree add\<close> for every submitted variant before
  any of them completes, so with two or more variants the commands overlap, whatever the
  order of completion.
\<close>

theorem provisioning_order:
  "serialized (snd (createUIVariations env names))
   \<and> take (length variationSpecs) (provisioning_events env completion variationSpecs)
       = map (\<lambda>spec. createWorktree_launch env (spec_name spec)) variationSpecs
   \<and> (2 \<le> length variationSpecs
        \<longrightarrow> \<not> serialized (provisioning_events env completion variationSpecs))"
proof -
  have b: "take (length variationSpecs) (provisioning_events env completion variationSpecs)
       = map (\<lambda>spec. createWorktree_launch env (spec_name spec)) variationSpecs"
    by (simp add: provisioning_events_def)
  have c: "\<not> serialized (provisioning_events env completion variationSpecs)"
    if "2 \<le> length variationSpecs"
  proof -
    from that obtain s1 s2 rest where "variationSpecs = s1 # s2 # rest"
      by (cases variationSpecs; cases "tl variationSpecs") auto
    then show ?thesis
      by (simp add: provisioning_events_def serialized_def createWorktree_launch_def)
  qed
  from createUIVariations_serialized b c show ?thesis by blast
qed

theorem provisioning_order_witness:
  "serialized (snd (createUIVariations env_all_succeed [''a'', ''b'']))
   \<and> \<not> serialized (provisioning_events env_all_succeed [1, 0]
          [\<lparr> spec_name = ''a'' \<rparr>, \<lparr> spec_name = ''b'' \<rparr>])"
proof -
  have "2 \<le> length [\<lparr> spec_name = ''a'' \<rparr>, \<lparr> spec_name = ''b'' \<rparr>]" by simp
  with provisioning_order
    [of env_all_succeed "[''a'', ''b'']" "[\<lparr> spec_name = ''a'' \<rparr>, \<lparr> spec_name = ''b'' \<rparr>]" "[1, 0]"]
  show ?thesis by blast
qed

text \<open>
  C3 as stated fails. For two variants the repository events of
  \<open>startVariationGeneration\<close> are: launch for \<open>a\<close>, launch for \<open>b\<close>, completion for \<open>a\<close>,
  completion for \<open>b\<close>. The second command begins before the first has completed.
\<close>

theorem parallel_provisioning_overlaps:
  "\<not> serialized (provisioning_events env_all_succeed [0, 1]
        [\<lparr> spec_name = ''a'' \<rparr>, \<lparr> spec_name = ''b'' \<rparr>])"
  by code_simp

end
